theory Spec2Isabelle
  imports
    Main
    "HOL-Library.Multiset"
    "HOL-Library.Char_ord"
    "HOL-Library.List_Lexorder"
begin

section \<open>Course records and the validation pipeline\<close>

text \<open>
  The repository holds two editions of the same program: \<^verbatim>\<open>ProjectTwoUniversal.cpp\<close> and the
  \<^verbatim>\<open>std::unique_ptr\<close> edition (the unnamed source part). \<^verbatim>\<open>CourseBuilder\<close> and
  \<^verbatim>\<open>DataStructure::hash\<close> are the same text in both. Every definition below says which
  edition it is translated from where the two differ.
\<close>

record Course =
  courseName :: string
  courseTitle :: string
  coursePrerequisites :: "string list"

subsection \<open>Character classes of the C locale\<close>

text \<open>
  The program never calls \<^verbatim>\<open>setlocale\<close>, so \<^verbatim>\<open>std::isalpha\<close>, \<^verbatim>\<open>std::isdigit\<close> and
  \<^verbatim>\<open>std::isspace\<close> classify in the "C" locale. A \<^typ>\<open>char\<close> is one byte; bytes from 128
  on are in none of the three classes.
\<close>

definition isalpha :: "char \<Rightarrow> bool" where
  "isalpha c = (let n = (of_char c :: nat) in (65 \<le> n \<and> n \<le> 90) \<or> (97 \<le> n \<and> n \<le> 122))"

definition isdigit :: "char \<Rightarrow> bool" where
  "isdigit c = (let n = (of_char c :: nat) in 48 \<le> n \<and> n \<le> 57)"

definition isspace :: "char \<Rightarrow> bool" where
  "isspace c = (let n = (of_char c :: nat) in n = 32 \<or> (9 \<le> n \<and> n \<le> 13))"

subsection \<open>CourseBuilder\<close>

text \<open>
  \<^verbatim>\<open>courseNameValidator\<close>: the two \<^verbatim>\<open>for\<close> loops run over the index ranges 0..3 and 4..6 and
  return false at the first character outside the class.
\<close>

definition courseNameValidator :: "string \<Rightarrow> bool" where
  "courseNameValidator courseName' =
     (if courseName' = [] then False
      else if length courseName' = 7 then
        (if \<exists>i \<in> set [0..<4]. \<not> isalpha (courseName' ! i) then False
         else if \<exists>i \<in> set [4..<7]. \<not> isdigit (courseName' ! i) then False
         else True)
      else False)"

definition courseDataValidator :: "string \<Rightarrow> bool" where
  "courseDataValidator data =
     (if data = [] then False
      else if \<exists>c \<in> set data. c = CHR 0x0A \<or> c = CHR 0x0D \<or> c = CHR 0x09 then False
      else True)"

text \<open>
  \<^verbatim>\<open>trim\<close>: \<open>start\<close> moves forward over leading white space, \<open>end'\<close> moves backward from the
  last index; the backward loop stops at \<open>start\<close> at the latest, because the character there is
  not white space.
\<close>

definition trim :: "string \<Rightarrow> string" where
  "trim input =
     (if input = [] then input
      else
        let start = length (takeWhile isspace input) in
        if start = length input then []
        else
          let end' = length input - 1 - length (takeWhile isspace (rev input)) in
          take (end' - start + 1) (drop start input))"

text \<open>\<^verbatim>\<open>filter\<close> (named \<open>filter_chars\<close> here): drops both quote characters, LF, CR and TAB.\<close>

fun filter_chars :: "string \<Rightarrow> string" where
  "filter_chars [] = []"
| "filter_chars (c # cs) =
     (if c \<noteq> CHR 0x22 \<and> c \<noteq> CHR 0x27 \<and> c \<noteq> CHR 0x0A \<and> c \<noteq> CHR 0x0D \<and> c \<noteq> CHR 0x09
      then c # filter_chars cs else filter_chars cs)"

text \<open>The defensive copy of \<^verbatim>\<open>builder\<close>: every item is filtered, then trimmed.\<close>

fun defensive_copy :: "string list \<Rightarrow> string list" where
  "defensive_copy [] = []"
| "defensive_copy (item # items) = trim (filter_chars item) # defensive_copy items"

text \<open>The prerequisite loop of \<^verbatim>\<open>builder\<close>, over the fields from index 2 on.\<close>

fun build_prereqs :: "string list \<Rightarrow> string list" where
  "build_prereqs [] = []"
| "build_prereqs (tempCourse # rest) =
     (if courseNameValidator tempCourse then tempCourse # build_prereqs rest
      else build_prereqs rest)"

text \<open>\<^verbatim>\<open>builder\<close>: \<open>None\<close> is the null pointer it returns on failure.\<close>

definition builder :: "string list \<Rightarrow> Course option" where
  "builder input =
     (if input = [] then None
      else
        let courseData = defensive_copy input in
        if length courseData < 2 then None
        else if \<not> courseNameValidator (courseData ! 0) then None
        else if \<not> courseDataValidator (courseData ! 1) then None
        else
          let coursePrereq = (if length courseData > 2 then build_prereqs (drop 2 courseData) else [])
          in Some \<lparr>courseName = courseData ! 0, courseTitle = courseData ! 1,
                   coursePrerequisites = coursePrereq\<rparr>)"

subsection \<open>LineParser::split (the unique_ptr edition)\<close>

text \<open>
  The inner \<^verbatim>\<open>while\<close> of \<^verbatim>\<open>split\<close>: it starts at \<open>start\<close> with \<open>inQuotes = false\<close> and returns
  how far \<open>index\<close> moved when it stopped, at an unquoted delimiter or at the end of the line.
\<close>

fun scan_field :: "char \<Rightarrow> bool \<Rightarrow> char \<Rightarrow> string \<Rightarrow> nat" where
  "scan_field d inQuotes quoteChar [] = 0"
| "scan_field d inQuotes quoteChar (c # cs) =
     (if c = CHR 0x22 \<or> c = CHR 0x27 then
        (if \<not> inQuotes then Suc (scan_field d True c cs)
         else if c = quoteChar then Suc (scan_field d False (CHR 0x00) cs)
         else Suc (scan_field d inQuotes quoteChar cs))
      else if c = d \<and> \<not> inQuotes then 0
      else Suc (scan_field d inQuotes quoteChar cs))"

fun strip_quotes :: "string \<Rightarrow> string" where
  "strip_quotes [] = []"
| "strip_quotes (c # cs) =
     (if c \<noteq> CHR 0x22 \<and> c \<noteq> CHR 0x27 then c # strip_quotes cs else strip_quotes cs)"

text \<open>
  The outer loop, on the part of the line from \<open>start\<close> on: one field is pushed per round, then
  \<open>start\<close> moves past the delimiter and past every delimiter that follows it directly.
\<close>

function split_loop :: "char \<Rightarrow> string \<Rightarrow> string list" where
  "split_loop d rest =
     (if rest = [] then []
      else
        let index = scan_field d False (CHR 0x00) rest;
            filteredSubstring = strip_quotes (take index rest)
        in filteredSubstring # split_loop d (dropWhile (\<lambda>c. c = d) (drop (Suc index) rest)))"
  by pat_completeness auto
termination
proof (relation "measure (\<lambda>(d, rest). length rest)")
  show "wf (measure (\<lambda>(d, rest). length rest))" by simp
next
  fix d :: char and rest :: string and x xa
  assume "rest \<noteq> []"
  then have "length (dropWhile (\<lambda>c. c = d) (drop (Suc x) rest)) < length rest"
    using length_dropWhile_le [of "\<lambda>c. c = d" "drop (Suc x) rest"] by (cases rest) auto
  then show "((d, dropWhile (\<lambda>c. c = d) (drop (Suc x) rest)), (d, rest))
      \<in> measure (\<lambda>(d, rest). length rest)" by simp
qed

declare split_loop.simps [simp del]

text \<open>\<^verbatim>\<open>delimiter[0]\<close>: on an empty \<^verbatim>\<open>std::string\<close> this is the terminating NUL.\<close>

definition delimiter0 :: "string \<Rightarrow> char" where
  "delimiter0 delimiter = (case delimiter of [] \<Rightarrow> CHR 0x00 | c # _ \<Rightarrow> c)"

definition split_line :: "string \<Rightarrow> string \<Rightarrow> string list" where
  "split_line input delimiter = (if input = [] then [] else split_loop (delimiter0 delimiter) input)"


subsection \<open>LineParser::split (ProjectTwoUniversal.cpp)\<close>

text \<open>
  The \<^verbatim>\<open>split\<close> of \<^verbatim>\<open>ProjectTwoUniversal.cpp\<close> has no quote state: the inner loop stops at the
  first delimiter, and the field is pushed as it is. (\<^verbatim>\<open>builder\<close> removes the quotes later.)
\<close>

function split_loop_plain :: "char \<Rightarrow> string \<Rightarrow> string list" where
  "split_loop_plain d rest =
     (if rest = [] then []
      else
        let index = length (takeWhile (\<lambda>c. c \<noteq> d) rest)
        in take index rest # split_loop_plain d (dropWhile (\<lambda>c. c = d) (drop (Suc index) rest)))"
  by pat_completeness auto
termination
proof (relation "measure (\<lambda>(d, rest). length rest)")
  show "wf (measure (\<lambda>(d, rest). length rest))" by simp
next
  fix d :: char and rest :: string and x
  assume "rest \<noteq> []"
  then have "length (dropWhile (\<lambda>c. c = d) (drop (Suc x) rest)) < length rest"
    using length_dropWhile_le [of "\<lambda>c. c = d" "drop (Suc x) rest"] by (cases rest) auto
  then show "((d, dropWhile (\<lambda>c. c = d) (drop (Suc x) rest)), (d, rest))
      \<in> measure (\<lambda>(d, rest). length rest)" by simp
qed

declare split_loop_plain.simps [simp del]

definition split_line_plain :: "string \<Rightarrow> string \<Rightarrow> string list" where
  "split_line_plain input delimiter =
     (if input = [] then [] else split_loop_plain (delimiter0 delimiter) input)"

subsection \<open>The specification's reading of split\<close>

text \<open>
  What section 4.2 of the specification says \<^verbatim>\<open>split\<close> does, written as one left-to-right pass
  for a delimiter character, with the quote state as an argument (the comparison with
  \<open>split_line\<close> is a theorem below):
  a quote character toggles the state (a quote of the other kind inside a segment does not) and
  is dropped, a delimiter outside a quoted segment ends the field, the delimiters that follow
  it directly are skipped, and every other character joins the current field.
\<close>

function split_spec_go :: "char \<Rightarrow> bool \<Rightarrow> char \<Rightarrow> string \<Rightarrow> string \<Rightarrow> string list" where
  "split_spec_go d inQ q cur [] = [cur]"
| "split_spec_go d inQ q cur (c # cs) =
     (if c = CHR 0x22 \<or> c = CHR 0x27 then
        (if \<not> inQ then split_spec_go d True c cur cs
         else if c = q then split_spec_go d False (CHR 0x00) cur cs
         else split_spec_go d inQ q cur cs)
      else if c = d \<and> \<not> inQ then
        cur # (if dropWhile (\<lambda>x. x = d) cs = [] then []
               else split_spec_go d False (CHR 0x00) [] (dropWhile (\<lambda>x. x = d) cs))
      else split_spec_go d inQ q (cur @ [c]) cs)"
  by pat_completeness auto
termination
proof (relation "measure (\<lambda>(d, inQ, q, cur, rest). length rest)")
  show "wf (measure (\<lambda>(d, inQ, q, cur, rest). length rest))" by simp
qed (auto intro: le_imp_less_Suc length_dropWhile_le)

definition split_spec :: "string \<Rightarrow> char \<Rightarrow> string list" where
  "split_spec input d = (if input = [] then [] else split_spec_go d False (CHR 0x00) [] input)"

section \<open>The hash table (DataStructure)\<close>

text \<open>
  Both editions declare the bucket array as \<^verbatim>\<open>std::vector<std::unique_ptr<DataNode>>\<close>. The
  unique_ptr edition's member functions are written against that declaration, and the table
  below follows them: a bucket owns its chain, so a chain is a finite list of the courses its
  nodes hold, head first, and the bucket array is a list of chains.

  The three \<^verbatim>\<open>size_t\<close> values are natural numbers with the wrap-around at \<open>2 ^ 64\<close> written out
  where the code increments, decrements or doubles them. What C++ leaves undefined, or answers
  with an exception, is an \<open>error\<close> value:
  \<^item> \<open>DivideByZero\<close>: \<^verbatim>\<open>% capacity\<close> with capacity 0 in \<^verbatim>\<open>hash\<close>;
  \<^item> \<open>OutOfRange\<close>: \<^verbatim>\<open>buckets[index]\<close> with an index beyond the vector (unchecked in C++);
  \<^item> \<open>LengthError\<close>: \<^verbatim>\<open>buckets.resize(n)\<close> with \<open>n\<close> beyond \<^verbatim>\<open>max_size()\<close>, which throws
    \<^verbatim>\<open>std::length_error\<close>; the bound is that of libstdc++ on a 64-bit target for 8-byte
    elements.
  \<^item> \<open>UseAfterFree\<close>: following a pointer to a deleted node (only the plain-pointer
    member functions of \<^verbatim>\<open>ProjectTwoUniversal.cpp\<close> can do that).
  Running out of memory below that bound and the text written to \<^verbatim>\<open>std::cout\<close> are outside
  the model.

  Names that HOL has taken get a suffix: the fields \<^verbatim>\<open>size\<close> and \<^verbatim>\<open>sorted\<close> are \<open>size_field\<close>
  and \<open>sorted_field\<close>, and \<^verbatim>\<open>insert\<close>, \<^verbatim>\<open>remove\<close> and \<^verbatim>\<open>sort\<close> are \<open>insert_course\<close>,
  \<open>remove_course\<close> and \<open>sort_courses\<close>.
\<close>

datatype error = DivideByZero | OutOfRange | LengthError | UseAfterFree

record DataStructure =
  buckets :: "Course list list"
  capacity :: nat
  size_field :: nat
  sortedCourses :: "Course list"
  sorted_field :: bool

definition vector_max_size :: nat where
  "vector_max_size = 2 ^ 60 - 1"

text \<open>
  \<^verbatim>\<open>static_cast<size_t>(c)\<close> for a \<^verbatim>\<open>char\<close>: \<^verbatim>\<open>char\<close> is signed on the usual targets, so a byte
  from 128 on is negative and sign-extends.
\<close>

definition char_to_size_t :: "char \<Rightarrow> nat" where
  "char_to_size_t c = (let n = (of_char c :: nat) in if n < 128 then n else 2 ^ 64 - 256 + n)"

fun hash_loop :: "nat \<Rightarrow> nat \<Rightarrow> string \<Rightarrow> error + nat" where
  "hash_loop cap hashValue [] = Inr hashValue"
| "hash_loop cap hashValue (c # cs) =
     (if cap = 0 then Inl DivideByZero
      else hash_loop cap (((hashValue * 31 + char_to_size_t c) mod 2 ^ 64) mod cap) cs)"

definition hash :: "DataStructure \<Rightarrow> string \<Rightarrow> error + nat" where
  "hash t key = hash_loop (capacity t) 0 key"

text \<open>\<^verbatim>\<open>buckets.resize(n)\<close> on an empty vector (new, moved-from or cleared): \<open>n\<close> null buckets.\<close>

definition fresh_buckets :: "nat \<Rightarrow> error + Course list list" where
  "fresh_buckets n = (if n > vector_max_size then Inl LengthError else Inr (replicate n []))"

text \<open>The two constructors.\<close>

definition new_table :: DataStructure where
  "new_table = \<lparr>buckets = replicate 1024 [], capacity = 1024, size_field = 0,
                 sortedCourses = [], sorted_field = False\<rparr>"

definition new_table_cap :: "nat \<Rightarrow> error + DataStructure" where
  "new_table_cap cap =
     (let capacity' = (if cap > 16 then cap else 16) in
      case fresh_buckets capacity' of
        Inl e \<Rightarrow> Inl e
      | Inr bs \<Rightarrow> Inr \<lparr>buckets = bs, capacity = capacity', size_field = 0,
                        sortedCourses = [], sorted_field = False\<rparr>)"

subsection \<open>resize\<close>

text \<open>
  The \<^verbatim>\<open>while\<close> loop of \<^verbatim>\<open>resize\<close> over one old chain: each node goes to the head of the chain
  of its index under the capacity that \<open>t\<close> has by now.
\<close>

fun rehash_chain :: "DataStructure \<Rightarrow> Course list \<Rightarrow> error + DataStructure" where
  "rehash_chain t [] = Inr t"
| "rehash_chain t (currentNode # nextNode) =
     (case hash t (courseName currentNode) of
        Inl e \<Rightarrow> Inl e
      | Inr newIndex \<Rightarrow>
          if newIndex < length (buckets t)
          then rehash_chain (t\<lparr>buckets := (buckets t)[newIndex := currentNode # buckets t ! newIndex]\<rparr>)
                 nextNode
          else Inl OutOfRange)"

fun rehash_buckets :: "DataStructure \<Rightarrow> Course list list \<Rightarrow> error + DataStructure" where
  "rehash_buckets t [] = Inr t"
| "rehash_buckets t (chain # rest) =
     (case rehash_chain t chain of Inl e \<Rightarrow> Inl e | Inr t' \<Rightarrow> rehash_buckets t' rest)"

text \<open>
  \<^verbatim>\<open>resize\<close>: the old array is moved out, the capacity doubles, the new array is allocated
  empty, and the old buckets with index below the old capacity are rehashed in index order.
\<close>

definition resize :: "DataStructure \<Rightarrow> error + DataStructure" where
  "resize t =
     (let oldCapacity = capacity t;
          oldBuckets = buckets t;
          capacity' = (capacity t * 2) mod 2 ^ 64
      in case fresh_buckets capacity' of
           Inl e \<Rightarrow> Inl e
         | Inr bs \<Rightarrow>
             if length oldBuckets < oldCapacity then Inl OutOfRange
             else rehash_buckets (t\<lparr>buckets := bs, capacity := capacity'\<rparr>)
                    (take oldCapacity oldBuckets))"

subsection \<open>insert\<close>

text \<open>
  \<^verbatim>\<open>(double)size / capacity > LOAD_FACTOR_THRESHOLD\<close> with the threshold 0.75, in IEEE 754
  double precision with rounding to nearest, ties to even.

  Both operands become doubles first. A \<^verbatim>\<open>size_t\<close> below \<open>2 ^ 53\<close> is a double; a larger one
  keeps its 53 leading bits, rounded: \<open>excess_bits\<close> counts the bits that are dropped.
\<close>

function excess_bits :: "nat \<Rightarrow> nat" where
  "excess_bits n = (if n < 2 ^ 53 then 0 else Suc (excess_bits (n div 2)))"
  by pat_completeness auto
termination
  by (relation "measure (\<lambda>n. n)") auto

declare excess_bits.simps [simp del]

definition to_double :: "nat \<Rightarrow> nat" where
  "to_double n =
     (let k = excess_bits n; q = n div 2 ^ k; r = n mod 2 ^ k
      in if 2 ^ k < 2 * r \<or> (2 * r = 2 ^ k \<and> odd q) then (q + 1) * 2 ^ k else q * 2 ^ k)"

text \<open>
  The quotient \<open>a / b\<close> of the two doubles is rounded to a double and compared with 0.75.
  0.75 is the double with the even significand \<open>3 * 2 ^ 51\<close> (in units of \<open>2 ^ - 53\<close>), and the
  next double above it is \<open>0.75 + 2 ^ - 53\<close>. So the rounded quotient is above 0.75 exactly
  when \<open>a / b\<close> is above the midpoint \<open>0.75 + 2 ^ - 54\<close> of the two (at the midpoint the tie
  goes to 0.75), that is when \<open>(3 * 2 ^ 52 + 1) * b < 2 ^ 54 * a\<close>. With \<open>b = 0\<close> the quotient is
  positive infinity for \<open>a > 0\<close> and not a number, which compares false, for \<open>a = 0\<close>.
\<close>

definition load_exceeded :: "nat \<Rightarrow> nat \<Rightarrow> bool" where
  "load_exceeded size' capacity' =
     (let a = to_double size'; b = to_double capacity'
      in if b = 0 then 0 < a else (3 * 2 ^ 52 + 1) * b < 2 ^ 54 * a)"

definition load_factor_exceeded :: "DataStructure \<Rightarrow> bool" where
  "load_factor_exceeded t = load_exceeded (size_field t) (capacity t)"

text \<open>
  The duplicate check of \<^verbatim>\<open>insert\<close>. \<^verbatim>\<open>currentNode\<close> is declared as a reference to
  \<^verbatim>\<open>buckets[index]\<close>, so \<^verbatim>\<open>currentNode = std::move(currentNode->nextNode)\<close> assigns to the bucket
  itself: the bucket now owns the rest of the chain and the node that was its head is destroyed.
  The result is whether a duplicate was found and what the bucket holds when the loop ends.
\<close>

fun insert_walk :: "string \<Rightarrow> Course list \<Rightarrow> bool \<times> Course list" where
  "insert_walk key [] = (False, [])"
| "insert_walk key (currentNode # nextNode) =
     (if courseName currentNode = key then (True, currentNode # nextNode)
      else insert_walk key nextNode)"

text \<open>\<^verbatim>\<open>insert\<close>; \<open>None\<close> is the null pointer.\<close>

definition insert_course :: "DataStructure \<Rightarrow> Course option \<Rightarrow> error + DataStructure" where
  "insert_course t course =
     (case course of
        None \<Rightarrow> Inr t
      | Some c \<Rightarrow>
          (case hash t (courseName c) of
             Inl e \<Rightarrow> Inl e
           | Inr index \<Rightarrow>
               if index < length (buckets t) then
                 (case insert_walk (courseName c) (buckets t ! index) of
                    (True, chain) \<Rightarrow> Inr (t\<lparr>buckets := (buckets t)[index := chain]\<rparr>)
                  | (False, chain) \<Rightarrow>
                      let t1 = t\<lparr>buckets := (buckets t)[index := c # chain],
                                 size_field := (size_field t + 1) mod 2 ^ 64\<rparr>
                      in case (if load_factor_exceeded t1 then resize t1 else Inr t1) of
                           Inl e \<Rightarrow> Inl e
                         | Inr t2 \<Rightarrow> Inr (t2\<lparr>sorted_field := False\<rparr>))
               else Inl OutOfRange))"

subsection \<open>inject\<close>

text \<open>
  The duplicate check of \<^verbatim>\<open>inject\<close> walks the bucket through the same kind of reference. Its
  \<^verbatim>\<open>continue\<close> belongs to the \<^verbatim>\<open>while\<close> loop around it, so on a duplicate the loop tests the
  same node again, for ever: \<open>None\<close> is "does not return".
\<close>

partial_function (option) inject_walk :: "string \<Rightarrow> Course list \<Rightarrow> Course list option" where
  "inject_walk key chain =
     (case chain of
        [] \<Rightarrow> Some []
      | currentNode # nextNode \<Rightarrow>
          if courseName currentNode = key then inject_walk key chain
          else inject_walk key nextNode)"

fun inject_loop :: "DataStructure \<Rightarrow> Course option list \<Rightarrow> (error + DataStructure) option" where
  "inject_loop t [] = Some (Inr t)"
| "inject_loop t (None # rest) = inject_loop t rest"
| "inject_loop t (Some c # rest) =
     (case hash t (courseName c) of
        Inl e \<Rightarrow> Some (Inl e)
      | Inr index \<Rightarrow>
          if index < length (buckets t) then
            (case inject_walk (courseName c) (buckets t ! index) of
               None \<Rightarrow> None
             | Some chain \<Rightarrow> inject_loop (t\<lparr>buckets := (buckets t)[index := c # chain]\<rparr>) rest)
          else Some (Inl OutOfRange))"

text \<open>
  \<^verbatim>\<open>inject\<close> of the unique_ptr edition: the array is cleared and allocated again with the
  capacity the table has, \<^verbatim>\<open>size\<close> is set to 0 and not counted up again. The loop hands each
  course to a new node with \<^verbatim>\<open>std::move(course)\<close>; \<^verbatim>\<open>course\<close> is a reference to a const pointer
  there, which a compiler refuses, and the line is read as the move it asks for.
\<close>

definition inject :: "DataStructure \<Rightarrow> Course option list \<Rightarrow> (error + DataStructure) option" where
  "inject t newCourses =
     (if newCourses = [] then Some (Inr t)
      else
        case fresh_buckets (capacity t) of
          Inl e \<Rightarrow> Some (Inl e)
        | Inr bs \<Rightarrow>
            (case inject_loop (t\<lparr>buckets := bs, size_field := 0\<rparr>) newCourses of
               None \<Rightarrow> None
             | Some (Inl e) \<Rightarrow> Some (Inl e)
             | Some (Inr t') \<Rightarrow> Some (Inr (t'\<lparr>sorted_field := False\<rparr>))))"

subsection \<open>remove\<close>

text \<open>
  The loop of \<^verbatim>\<open>remove\<close>. \<^verbatim>\<open>currentNode\<close> is again a reference to the bucket and \<^verbatim>\<open>previous\<close>,
  once set, is the address of that same bucket. At a match with \<^verbatim>\<open>previous == nullptr\<close> the
  bucket takes the rest of the chain; at a later match
  \<^verbatim>\<open>(*previous)->nextNode = std::move(currentNode->nextNode)\<close> moves a pointer into itself,
  which leaves it as it is. The flag is \<^verbatim>\<open>previous != nullptr\<close>.
\<close>

fun remove_walk :: "string \<Rightarrow> bool \<Rightarrow> Course list \<Rightarrow> bool \<times> Course list" where
  "remove_walk name previous [] = (False, [])"
| "remove_walk name previous (currentNode # nextNode) =
     (if courseName currentNode = name
      then (True, if \<not> previous then nextNode else currentNode # nextNode)
      else remove_walk name True nextNode)"

definition remove_course :: "DataStructure \<Rightarrow> string \<Rightarrow> error + DataStructure" where
  "remove_course t name =
     (if name = [] then Inr t
      else
        case hash t name of
          Inl e \<Rightarrow> Inl e
        | Inr index \<Rightarrow>
            if index < length (buckets t) then
              (case remove_walk name False (buckets t ! index) of
                 (True, chain) \<Rightarrow>
                   Inr (t\<lparr>buckets := (buckets t)[index := chain],
                          size_field := (size_field t + (2 ^ 64 - 1)) mod 2 ^ 64,
                          sorted_field := False\<rparr>)
               | (False, chain) \<Rightarrow> Inr (t\<lparr>buckets := (buckets t)[index := chain]\<rparr>))
            else Inl OutOfRange)"

subsection \<open>get, sort and getSorted\<close>

fun get_walk :: "string \<Rightarrow> Course list \<Rightarrow> Course option" where
  "get_walk name [] = None"
| "get_walk name (currentNode # nextNode) =
     (if courseName currentNode = name then Some currentNode else get_walk name nextNode)"

text \<open>\<^verbatim>\<open>get\<close> is \<^verbatim>\<open>const\<close> and walks with a plain pointer: it returns a copy or null.\<close>

definition get :: "DataStructure \<Rightarrow> string \<Rightarrow> error + Course option" where
  "get t name =
     (if name = [] then Inr None
      else
        case hash t name of
          Inl e \<Rightarrow> Inl e
        | Inr index \<Rightarrow>
            if index < length (buckets t) then Inr (get_walk name (buckets t ! index))
            else Inl OutOfRange)"

text \<open>
  \<^verbatim>\<open>sort\<close> collects the courses of the buckets with index below the capacity and sorts them
  with \<^verbatim>\<open>std::sort\<close> by \<^verbatim>\<open>getName()\<close>; \<^verbatim>\<open>std::string\<close> compares bytes as unsigned values, which
  is the order of \<^typ>\<open>string\<close> here. The cached vector holds pointers to the courses; the
  model holds the courses they pointed to when the vector was filled.
\<close>

definition sort_courses :: "DataStructure \<Rightarrow> error + DataStructure" where
  "sort_courses t =
     (if length (buckets t) < capacity t then Inl OutOfRange
      else Inr (t\<lparr>sortedCourses := sort_key courseName (concat (take (capacity t) (buckets t))),
                 sorted_field := True\<rparr>))"

text \<open>\<^verbatim>\<open>getSorted\<close>: the table with its cache as the call leaves it, and the vector it returns.\<close>

definition getSorted :: "DataStructure \<Rightarrow> error + DataStructure \<times> Course list" where
  "getSorted t =
     (if \<not> sorted_field t then
        (case sort_courses t of Inl e \<Rightarrow> Inl e | Inr t' \<Rightarrow> Inr (t', sortedCourses t'))
      else Inr (t, sortedCourses t))"


subsection \<open>Runs of the public operations\<close>

text \<open>A sequence of \<^verbatim>\<open>insert\<close> calls; an error ends the run, as the exception would.\<close>

fun insert_all :: "DataStructure \<Rightarrow> Course option list \<Rightarrow> error + DataStructure" where
  "insert_all t [] = Inr t"
| "insert_all t (c # cs) =
     (case insert_course t c of Inl e \<Rightarrow> Inl e | Inr t' \<Rightarrow> insert_all t' cs)"

text \<open>
  The tables a program can hold: one of the two constructors made it (the argument of the
  second is a \<^verbatim>\<open>size_t\<close>), and every later step is a public member function that returned.
\<close>

inductive reachable :: "DataStructure \<Rightarrow> bool" where
  r_new: "reachable new_table"
| r_new_cap: "cap < 2 ^ 64 \<Longrightarrow> new_table_cap cap = Inr t \<Longrightarrow> reachable t"
| r_insert: "reachable t \<Longrightarrow> insert_course t c = Inr t' \<Longrightarrow> reachable t'"
| r_remove: "reachable t \<Longrightarrow> remove_course t name = Inr t' \<Longrightarrow> reachable t'"
| r_inject: "reachable t \<Longrightarrow> inject t newCourses = Some (Inr t') \<Longrightarrow> reachable t'"
| r_resize: "reachable t \<Longrightarrow> resize t = Inr t' \<Longrightarrow> reachable t'"
| r_sort: "reachable t \<Longrightarrow> sort_courses t = Inr t' \<Longrightarrow> reachable t'"
| r_getSorted: "reachable t \<Longrightarrow> getSorted t = Inr (t', cs) \<Longrightarrow> reachable t'"

text \<open>All courses in the table, in bucket order.\<close>

definition entries :: "DataStructure \<Rightarrow> Course list" where
  "entries t = concat (buckets t)"

section \<open>inject of ProjectTwoUniversal.cpp\<close>

text \<open>
  The member functions of \<^verbatim>\<open>ProjectTwoUniversal.cpp\<close> handle the nodes through plain
  \<^verbatim>\<open>DataNode*\<close> pointers. Only this edition of \<^verbatim>\<open>inject\<close> sets the capacity, so it is modelled
  here, on a table of its own. Its loop only puts a new node in front of a chain, so a chain is
  a list of courses here; the other member functions follow in the next section, on a heap of
  nodes. \<^verbatim>\<open>destroy\<close> deletes every node and leaves the bucket array as it
  is: a bucket that had a chain holds a pointer to a deleted node afterwards.
\<close>

datatype raw_bucket = Chain "Course list" | Dangling

record RawTable =
  raw_buckets :: "raw_bucket list"
  raw_capacity :: nat
  raw_size :: nat
  raw_sortedCourses :: "Course list"

definition new_raw_table :: RawTable where
  "new_raw_table = \<lparr>raw_buckets = replicate 1024 (Chain []), raw_capacity = 1024, raw_size = 0,
                     raw_sortedCourses = []\<rparr>"

fun destroy_buckets :: "raw_bucket list \<Rightarrow> error + raw_bucket list" where
  "destroy_buckets [] = Inr []"
| "destroy_buckets (Dangling # rest) = Inl UseAfterFree"
| "destroy_buckets (Chain chain # rest) =
     (case destroy_buckets rest of
        Inl e \<Rightarrow> Inl e
      | Inr bs \<Rightarrow> Inr ((if chain = [] then Chain [] else Dangling) # bs))"

definition destroy :: "RawTable \<Rightarrow> error + RawTable" where
  "destroy t =
     (if length (raw_buckets t) < raw_capacity t then Inl OutOfRange
      else
        case destroy_buckets (take (raw_capacity t) (raw_buckets t)) of
          Inl e \<Rightarrow> Inl e
        | Inr bs \<Rightarrow>
            Inr (t\<lparr>raw_buckets := bs @ drop (raw_capacity t) (raw_buckets t), raw_size := 0,
                   raw_sortedCourses := []\<rparr>))"

text \<open>\<^verbatim>\<open>v.resize(n, x)\<close>: the first \<open>n\<close> elements stay, new places are filled with \<open>x\<close>.\<close>

definition vector_resize :: "nat \<Rightarrow> 'a \<Rightarrow> 'a list \<Rightarrow> error + 'a list" where
  "vector_resize n x v =
     (if n > vector_max_size then Inl LengthError
      else Inr (take n v @ replicate (n - length v) x))"

text \<open>
  Lines 301 to 312 of \<^verbatim>\<open>inject\<close>, for \<open>n = newCourses.size()\<close>: destroy, set the capacity,
  resize the array, set the size to 0.
\<close>

definition inject_reset :: "RawTable \<Rightarrow> nat \<Rightarrow> error + RawTable" where
  "inject_reset t n =
     (case destroy t of
        Inl e \<Rightarrow> Inl e
      | Inr t1 \<Rightarrow>
          let capacity' = (if n > 1024 then (n * 2) mod 2 ^ 64 else 1024) in
          case vector_resize capacity' (Chain []) (raw_buckets t1) of
            Inl e \<Rightarrow> Inl e
          | Inr bs \<Rightarrow> Inr (t1\<lparr>raw_capacity := capacity', raw_buckets := bs, raw_size := 0\<rparr>))"

text \<open>The duplicate check here walks with a pointer of its own and changes nothing.\<close>

fun raw_walk :: "string \<Rightarrow> Course list \<Rightarrow> bool" where
  "raw_walk key [] = False"
| "raw_walk key (currentNode # nextNode) =
     (if courseName currentNode = key then True else raw_walk key nextNode)"

text \<open>
  The insertion loop. Line 340 reads \<^verbatim>\<open>new DataNode(std::unique_ptr<Course>)\<close>, which is not
  C++; it is taken as \<^verbatim>\<open>new DataNode(course)\<close>. The size is not counted.
\<close>

fun inject_raw_loop :: "RawTable \<Rightarrow> Course option list \<Rightarrow> error + RawTable" where
  "inject_raw_loop t [] = Inr t"
| "inject_raw_loop t (None # rest) = inject_raw_loop t rest"
| "inject_raw_loop t (Some c # rest) =
     (case hash_loop (raw_capacity t) 0 (courseName c) of
        Inl e \<Rightarrow> Inl e
      | Inr index \<Rightarrow>
          if index < length (raw_buckets t) then
            (case raw_buckets t ! index of
               Dangling \<Rightarrow> Inl UseAfterFree
             | Chain chain \<Rightarrow>
                 if raw_walk (courseName c) chain then inject_raw_loop t rest
                 else inject_raw_loop (t\<lparr>raw_buckets := (raw_buckets t)[index := Chain (c # chain)]\<rparr>)
                        rest)
          else Inl OutOfRange)"

definition inject_raw :: "RawTable \<Rightarrow> Course option list \<Rightarrow> error + RawTable" where
  "inject_raw t newCourses =
     (if newCourses = [] then Inr t
      else
        case inject_reset t (length newCourses) of
          Inl e \<Rightarrow> Inl e
        | Inr t1 \<Rightarrow> inject_raw_loop t1 newCourses)"

section \<open>insert, resize, remove and get of ProjectTwoUniversal.cpp\<close>

text \<open>
  These member functions link and unlink nodes through plain pointers, and \<^verbatim>\<open>resize\<close> can link
  a node to itself, which no list of courses can show. So here the nodes live in a heap: an
  address is an index into the list of cells, \<^verbatim>\<open>new\<close> appends a cell (an address is not used
  twice), and \<^verbatim>\<open>delete\<close> empties the cell; \<^verbatim>\<open>~DataNode\<close> deletes the course with the node.
  Following a pointer to an emptied cell is \<open>UseAfterFree\<close>. A bucket holds the address of
  its first node or the null pointer \<open>None\<close>. The fields of a node are \<open>nodeCourse\<close> and
  \<open>nodeNext\<close> for \<^verbatim>\<open>course\<close> and \<^verbatim>\<open>nextNode\<close>, and the fields of the table carry the prefix
  \<open>ptr\<close>. A walk that never reaches the null pointer does not return: \<open>None\<close>.
\<close>

record DataNode =
  nodeCourse :: Course
  nodeNext :: "nat option"

record PtrTable =
  ptr_heap :: "DataNode option list"
  ptr_buckets :: "nat option list"
  ptr_capacity :: nat
  ptr_size :: nat
  ptr_sortedCourses :: "Course list"

definition node_at :: "DataNode option list \<Rightarrow> nat \<Rightarrow> DataNode option" where
  "node_at h a = (if a < length h then h ! a else None)"

text \<open>The two constructors.\<close>

definition ptr_new_table :: PtrTable where
  "ptr_new_table = \<lparr>ptr_heap = [], ptr_buckets = replicate 1024 None, ptr_capacity = 1024,
                     ptr_size = 0, ptr_sortedCourses = []\<rparr>"

definition ptr_new_table_cap :: "nat \<Rightarrow> error + PtrTable" where
  "ptr_new_table_cap cap =
     (let capacity' = (if cap > 16 then cap else 16) in
      case vector_resize capacity' None [] of
        Inl e \<Rightarrow> Inl e
      | Inr bs \<Rightarrow> Inr \<lparr>ptr_heap = [], ptr_buckets = bs, ptr_capacity = capacity', ptr_size = 0,
                        ptr_sortedCourses = []\<rparr>)"

text \<open>
  The \<^verbatim>\<open>while\<close> loop of \<^verbatim>\<open>resize\<close> over one old chain: \<^verbatim>\<open>nextNode\<close> is read first, then the node
  is linked in front of what \<^verbatim>\<open>buckets[newIndex]\<close> holds at that moment.
\<close>

partial_function (option) ptr_rehash_chain :: "PtrTable \<Rightarrow> nat option \<Rightarrow> (error + PtrTable) option" where
  "ptr_rehash_chain t currentNode =
     (case currentNode of
        None \<Rightarrow> Some (Inr t)
      | Some a \<Rightarrow>
          (case node_at (ptr_heap t) a of
             None \<Rightarrow> Some (Inl UseAfterFree)
           | Some n \<Rightarrow>
               (case hash_loop (ptr_capacity t) 0 (courseName (nodeCourse n)) of
                  Inl e \<Rightarrow> Some (Inl e)
                | Inr newIndex \<Rightarrow>
                    if newIndex < length (ptr_buckets t)
                    then ptr_rehash_chain
                           (t\<lparr>ptr_heap := (ptr_heap t)[a := Some (n\<lparr>nodeNext := ptr_buckets t ! newIndex\<rparr>)],
                              ptr_buckets := (ptr_buckets t)[newIndex := Some a]\<rparr>)
                           (nodeNext n)
                    else Some (Inl OutOfRange))))"

fun ptr_rehash_buckets :: "PtrTable \<Rightarrow> nat option list \<Rightarrow> (error + PtrTable) option" where
  "ptr_rehash_buckets t [] = Some (Inr t)"
| "ptr_rehash_buckets t (currentNode # rest) =
     (case ptr_rehash_chain t currentNode of
        None \<Rightarrow> None
      | Some (Inl e) \<Rightarrow> Some (Inl e)
      | Some (Inr t') \<Rightarrow> ptr_rehash_buckets t' rest)"

text \<open>
  \<^verbatim>\<open>resize\<close>: \<^verbatim>\<open>oldBuckets\<close> is a copy of the array, the capacity doubles, and
  \<^verbatim>\<open>buckets.resize(capacity, nullptr)\<close> appends null pointers: the buckets below the old
  capacity keep the heads they had. Then the old chains are rehashed in index order.
\<close>

definition ptr_resize :: "PtrTable \<Rightarrow> (error + PtrTable) option" where
  "ptr_resize t =
     (let oldCapacity = ptr_capacity t;
          oldBuckets = ptr_buckets t;
          capacity' = (ptr_capacity t * 2) mod 2 ^ 64
      in case vector_resize capacity' None (ptr_buckets t) of
           Inl e \<Rightarrow> Some (Inl e)
         | Inr bs \<Rightarrow>
             if length oldBuckets < oldCapacity then Some (Inl OutOfRange)
             else ptr_rehash_buckets (t\<lparr>ptr_buckets := bs, ptr_capacity := capacity'\<rparr>)
                    (take oldCapacity oldBuckets))"

text \<open>The duplicate check of \<^verbatim>\<open>insert\<close>: a walk with a pointer of its own.\<close>

partial_function (option) ptr_insert_walk ::
    "DataNode option list \<Rightarrow> string \<Rightarrow> nat option \<Rightarrow> (error + bool) option" where
  "ptr_insert_walk h key currentNode =
     (case currentNode of
        None \<Rightarrow> Some (Inr False)
      | Some a \<Rightarrow>
          (case node_at h a of
             None \<Rightarrow> Some (Inl UseAfterFree)
           | Some n \<Rightarrow>
               if courseName (nodeCourse n) = key then Some (Inr True)
               else ptr_insert_walk h key (nodeNext n)))"

text \<open>
  \<^verbatim>\<open>insert\<close>: on a duplicate it returns with the table as it was; otherwise the new node goes
  to the head of the chain, the size is counted, and the load factor is tested.
\<close>

definition ptr_insert :: "PtrTable \<Rightarrow> Course option \<Rightarrow> (error + PtrTable) option" where
  "ptr_insert t course =
     (case course of
        None \<Rightarrow> Some (Inr t)
      | Some c \<Rightarrow>
          (case hash_loop (ptr_capacity t) 0 (courseName c) of
             Inl e \<Rightarrow> Some (Inl e)
           | Inr index \<Rightarrow>
               if index < length (ptr_buckets t) then
                 (case ptr_insert_walk (ptr_heap t) (courseName c) (ptr_buckets t ! index) of
                    None \<Rightarrow> None
                  | Some (Inl e) \<Rightarrow> Some (Inl e)
                  | Some (Inr True) \<Rightarrow> Some (Inr t)
                  | Some (Inr False) \<Rightarrow>
                      let newNode = length (ptr_heap t);
                          t1 = t\<lparr>ptr_heap := ptr_heap t @ [Some \<lparr>nodeCourse = c, nodeNext = ptr_buckets t ! index\<rparr>],
                                 ptr_buckets := (ptr_buckets t)[index := Some newNode],
                                 ptr_size := (ptr_size t + 1) mod 2 ^ 64\<rparr>
                      in if load_exceeded (ptr_size t1) (ptr_capacity t1) then ptr_resize t1
                         else Some (Inr t1))
               else Some (Inl OutOfRange)))"

text \<open>
  The loop of \<^verbatim>\<open>remove\<close>, with \<^verbatim>\<open>previous\<close> and \<^verbatim>\<open>currentNode\<close>. At a match the node is unlinked
  from the bucket or from the node before it, and deleted; the size is counted down.
\<close>

partial_function (option) ptr_remove_walk ::
    "PtrTable \<Rightarrow> nat \<Rightarrow> string \<Rightarrow> nat option \<Rightarrow> nat option \<Rightarrow> (error + PtrTable) option" where
  "ptr_remove_walk t index name previous currentNode =
     (case currentNode of
        None \<Rightarrow> Some (Inr t)
      | Some a \<Rightarrow>
          (case node_at (ptr_heap t) a of
             None \<Rightarrow> Some (Inl UseAfterFree)
           | Some n \<Rightarrow>
               if courseName (nodeCourse n) = name then
                 (case previous of
                    None \<Rightarrow>
                      Some (Inr (t\<lparr>ptr_buckets := (ptr_buckets t)[index := nodeNext n],
                                   ptr_heap := (ptr_heap t)[a := None],
                                   ptr_size := (ptr_size t + (2 ^ 64 - 1)) mod 2 ^ 64\<rparr>))
                  | Some p \<Rightarrow>
                      (case node_at (ptr_heap t) p of
                         None \<Rightarrow> Some (Inl UseAfterFree)
                       | Some pn \<Rightarrow>
                           Some (Inr (t\<lparr>ptr_heap := ((ptr_heap t)[p := Some (pn\<lparr>nodeNext := nodeNext n\<rparr>)])[a := None],
                                        ptr_size := (ptr_size t + (2 ^ 64 - 1)) mod 2 ^ 64\<rparr>))))
               else ptr_remove_walk t index name (Some a) (nodeNext n)))"

definition ptr_remove :: "PtrTable \<Rightarrow> string \<Rightarrow> (error + PtrTable) option" where
  "ptr_remove t name =
     (if name = [] then Some (Inr t)
      else
        case hash_loop (ptr_capacity t) 0 name of
          Inl e \<Rightarrow> Some (Inl e)
        | Inr index \<Rightarrow>
            if index < length (ptr_buckets t)
            then ptr_remove_walk t index name None (ptr_buckets t ! index)
            else Some (Inl OutOfRange))"

text \<open>\<^verbatim>\<open>get\<close> returns the course of the first node with the name, or null.\<close>

partial_function (option) ptr_get_walk ::
    "DataNode option list \<Rightarrow> string \<Rightarrow> nat option \<Rightarrow> (error + Course option) option" where
  "ptr_get_walk h name currentNode =
     (case currentNode of
        None \<Rightarrow> Some (Inr None)
      | Some a \<Rightarrow>
          (case node_at h a of
             None \<Rightarrow> Some (Inl UseAfterFree)
           | Some n \<Rightarrow>
               if courseName (nodeCourse n) = name then Some (Inr (Some (nodeCourse n)))
               else ptr_get_walk h name (nodeNext n)))"

definition ptr_get :: "PtrTable \<Rightarrow> string \<Rightarrow> (error + Course option) option" where
  "ptr_get t name =
     (if name = [] then Some (Inr None)
      else
        case hash_loop (ptr_capacity t) 0 name of
          Inl e \<Rightarrow> Some (Inl e)
        | Inr index \<Rightarrow>
            if index < length (ptr_buckets t)
            then ptr_get_walk (ptr_heap t) name (ptr_buckets t ! index)
            else Some (Inl OutOfRange))"

text \<open>A sequence of \<^verbatim>\<open>insert\<close> calls on this table.\<close>

fun ptr_insert_all :: "PtrTable \<Rightarrow> Course option list \<Rightarrow> (error + PtrTable) option" where
  "ptr_insert_all t [] = Some (Inr t)"
| "ptr_insert_all t (c # cs) =
     (case ptr_insert t c of
        None \<Rightarrow> None
      | Some (Inl e) \<Rightarrow> Some (Inl e)
      | Some (Inr t') \<Rightarrow> ptr_insert_all t' cs)"

section \<open>Invariants and example tables\<close>

text \<open>
  What every table made by a constructor satisfies, and every member function keeps: the
  capacity is positive, the bucket array has exactly that many buckets, and it is an
  array that could be allocated.
\<close>

definition table_ok :: "DataStructure \<Rightarrow> bool" where
  "table_ok t \<longleftrightarrow> 0 < capacity t \<and> length (buckets t) = capacity t \<and> capacity t \<le> vector_max_size"

text \<open>The load factor is at most 0.75.\<close>

definition load_ok :: "DataStructure \<Rightarrow> bool" where
  "load_ok t \<longleftrightarrow> 4 * size_field t \<le> 3 * capacity t"

text \<open>The size counts at least the courses that are in the table.\<close>

definition count_ok :: "DataStructure \<Rightarrow> bool" where
  "count_ok t \<longleftrightarrow> length (entries t) \<le> size_field t"

text \<open>Every course sits in the bucket of its hash.\<close>

definition placed :: "DataStructure \<Rightarrow> bool" where
  "placed t \<longleftrightarrow> (\<forall>i < length (buckets t). \<forall>e \<in> set (buckets t ! i). hash t (courseName e) = Inr i)"

text \<open>
  Tables whose courses all carry an identifier that \<^verbatim>\<open>courseNameValidator\<close> accepts, as every
  course that \<^verbatim>\<open>builder\<close> makes does: no chain holds more than one node, every name in the table
  is valid, and the table is well formed with every course in the bucket of its hash.
\<close>

definition single :: "DataStructure \<Rightarrow> bool" where
  "single t \<longleftrightarrow> (\<forall>chain \<in> set (buckets t). length chain \<le> 1)"

definition names_valid :: "DataStructure \<Rightarrow> bool" where
  "names_valid t \<longleftrightarrow> (\<forall>e \<in> set (entries t). courseNameValidator (courseName e))"

definition valid_table :: "DataStructure \<Rightarrow> bool" where
  "valid_table t \<longleftrightarrow> table_ok t \<and> placed t \<and> single t \<and> names_valid t"

text \<open>
  The tables of the unique_ptr edition that a program reaches when every course it hands to
  \<^verbatim>\<open>insert\<close> and \<^verbatim>\<open>inject\<close> has a valid identifier.
\<close>

inductive reachable_valid :: "DataStructure \<Rightarrow> bool" where
  v_new: "reachable_valid new_table"
| v_new_cap: "cap < 2 ^ 64 \<Longrightarrow> new_table_cap cap = Inr t \<Longrightarrow> reachable_valid t"
| v_insert: "reachable_valid t \<Longrightarrow> courseNameValidator (courseName c) \<Longrightarrow>
     insert_course t (Some c) = Inr t' \<Longrightarrow> reachable_valid t'"
| v_insert_null: "reachable_valid t \<Longrightarrow> insert_course t None = Inr t' \<Longrightarrow> reachable_valid t'"
| v_remove: "reachable_valid t \<Longrightarrow> remove_course t name = Inr t' \<Longrightarrow> reachable_valid t'"
| v_inject: "reachable_valid t \<Longrightarrow>
     \<forall>c. Some c \<in> set newCourses \<longrightarrow> courseNameValidator (courseName c) \<Longrightarrow>
     inject t newCourses = Some (Inr t') \<Longrightarrow> reachable_valid t'"
| v_resize: "reachable_valid t \<Longrightarrow> resize t = Inr t' \<Longrightarrow> reachable_valid t'"
| v_sort: "reachable_valid t \<Longrightarrow> sort_courses t = Inr t' \<Longrightarrow> reachable_valid t'"
| v_getSorted: "reachable_valid t \<Longrightarrow> getSorted t = Inr (t', cs) \<Longrightarrow> reachable_valid t'"

text \<open>The same for the plain-pointer table, which must not hold a dangling bucket.\<close>

definition raw_ok :: "RawTable \<Rightarrow> bool" where
  "raw_ok t \<longleftrightarrow> 0 < raw_capacity t \<and> length (raw_buckets t) = raw_capacity t
     \<and> Dangling \<notin> set (raw_buckets t)"

text \<open>
  Courses and tables for the worked runs below. Two of the names hold a letter outside
  ASCII, which UTF-8 writes as two bytes: N with tilde (C3 91) and E with acute (C3 89).
\<close>

definition example_course :: "string \<Rightarrow> Course" where
  "example_course name = \<lparr>courseName = name, courseTitle = ''Title of '' @ name, coursePrerequisites = []\<rparr>"

definition name_espan :: string where
  "name_espan = ''ESPA'' @ [CHR 0xC3, CHR 0x91] @ ''106''"

definition name_cafe :: string where
  "name_cafe = ''CAF'' @ [CHR 0xC3, CHR 0x89] @ ''103''"

text \<open>\<^verbatim>\<open>DataStructure(18)\<close>, thirteen courses to insert into it, and the tables that follow.\<close>

definition table18 :: DataStructure where
  "table18 = \<lparr>buckets = replicate 18 [], capacity = 18, size_field = 0, sortedCourses = [], sorted_field = False\<rparr>"

definition thirteen_courses :: "Course option list" where
  "thirteen_courses =
     [Some (example_course name_espan),
      Some (example_course ''CSCI100''),
      Some (example_course ''CSCI102''),
      Some (example_course ''CSCI104''),
      Some (example_course ''CSCI105''),
      Some (example_course ''CSCI106''),
      Some (example_course ''CSCI107''),
      Some (example_course ''CSCI108''),
      Some (example_course ''CSCI109''),
      Some (example_course ''CSCI110''),
      Some (example_course ''CSCI111''),
      Some (example_course ''CSCI112''),
      Some (example_course ''CSCI113'')]"

definition table13 :: DataStructure where
  "table13 =
     \<lparr>buckets =
       [[], [example_course ''CSCI104''], [example_course ''CSCI105''],
        [example_course ''CSCI106''], [example_course ''CSCI107''],
        [example_course ''CSCI108''], [example_course ''CSCI109''], [], [], [],
        [example_course ''CSCI110''], [example_course ''CSCI111''],
        [example_course ''CSCI112''], [example_course ''CSCI113''], [],
        [example_course ''CSCI100''], [example_course name_espan],
        [example_course ''CSCI102'']],
     capacity = 18, size_field = 13, sortedCourses = [], sorted_field = False\<rparr>"

definition table14 :: DataStructure where
  "table14 =
     \<lparr>buckets =
       [[], [], [], [], [], [], [], [], [], [], [example_course ''CSCI110''],
        [example_course ''CSCI111''], [example_course ''CSCI112''],
        [example_course ''CSCI113''], [], [example_course ''CSCI100''], [],
        [example_course ''CSCI102''], [example_course name_espan,
        example_course name_cafe], [example_course ''CSCI104''],
        [example_course ''CSCI105''], [example_course ''CSCI106''],
        [example_course ''CSCI107''], [example_course ''CSCI108''],
        [example_course ''CSCI109''], [], [], [], [], [], [], [], [], [], [], []],
     capacity = 36, size_field = 14, sortedCourses = [], sorted_field = False\<rparr>"

definition table14_removed :: DataStructure where
  "table14_removed =
     \<lparr>buckets =
       [[], [], [], [], [], [], [], [], [], [], [example_course ''CSCI110''],
        [example_course ''CSCI111''], [example_course ''CSCI112''],
        [example_course ''CSCI113''], [], [example_course ''CSCI100''], [],
        [example_course ''CSCI102''], [example_course name_cafe],
        [example_course ''CSCI104''], [example_course ''CSCI105''],
        [example_course ''CSCI106''], [example_course ''CSCI107''],
        [example_course ''CSCI108''], [example_course ''CSCI109''], [], [], [], [], [],
        [], [], [], [], [], []],
     capacity = 36, size_field = 13, sortedCourses = [], sorted_field = False\<rparr>"

definition table14_duplicate :: DataStructure where
  "table14_duplicate =
     \<lparr>buckets =
       [[], [], [], [], [], [], [], [], [], [], [example_course ''CSCI110''],
        [example_course ''CSCI111''], [example_course ''CSCI112''],
        [example_course ''CSCI113''], [], [example_course ''CSCI100''], [],
        [example_course ''CSCI102''], [example_course name_cafe],
        [example_course ''CSCI104''], [example_course ''CSCI105''],
        [example_course ''CSCI106''], [example_course ''CSCI107''],
        [example_course ''CSCI108''], [example_course ''CSCI109''], [], [], [], [], [],
        [], [], [], [], [], []],
     capacity = 36, size_field = 14, sortedCourses = [], sorted_field = False\<rparr>"

text \<open>
  The default table after \<^verbatim>\<open>insert\<close> of one course, after \<^verbatim>\<open>getSorted\<close>, and after a
  \<^verbatim>\<open>remove\<close> of a name that is not in the table; the default table after \<^verbatim>\<open>inject\<close> of two
  courses; the plain-pointer table after \<^verbatim>\<open>inject\<close> of one course.
\<close>

definition table_one :: DataStructure where
  "table_one = \<lparr>buckets = (replicate 1024 [])[347 := [example_course ''CSCI100'']],
      capacity = 1024, size_field = 1, sortedCourses = [], sorted_field = False\<rparr>"

definition table_one_sorted :: DataStructure where
  "table_one_sorted = \<lparr>buckets = (replicate 1024 [])[347 := [example_course ''CSCI100'']],
      capacity = 1024, size_field = 1, sortedCourses = [example_course ''CSCI100''], sorted_field = True\<rparr>"

definition table_one_stale :: DataStructure where
  "table_one_stale = \<lparr>buckets = replicate 1024 [],
      capacity = 1024, size_field = 1, sortedCourses = [example_course ''CSCI100''], sorted_field = True\<rparr>"

definition table_injected :: DataStructure where
  "table_injected = \<lparr>buckets = (replicate 1024 [])[347 := [example_course ''CSCI221'']],
      capacity = 1024, size_field = 0, sortedCourses = [], sorted_field = False\<rparr>"

definition raw_table_one :: RawTable where
  "raw_table_one = \<lparr>raw_buckets = (replicate 1024 (Chain []))[347 := Chain [example_course ''CSCI100'']],
      raw_capacity = 1024, raw_size = 0, raw_sortedCourses = []\<rparr>"

text \<open>
  The default table after \<^verbatim>\<open>insert\<close> of \<^verbatim>\<open>CSCI100\<close> and then of \<^verbatim>\<open>CSCI221\<close>, which has the same
  bucket, and a course with the name of \<open>example_course\<close> and another title.
\<close>

definition table_collision :: DataStructure where
  "table_collision = \<lparr>buckets = (replicate 1024 [])[347 := [example_course ''CSCI221'']],
      capacity = 1024, size_field = 2, sortedCourses = [], sorted_field = False\<rparr>"

definition same_name_course :: "string \<Rightarrow> Course" where
  "same_name_course name = \<lparr>courseName = name, courseTitle = ''Another title'', coursePrerequisites = []\<rparr>"

text \<open>
  The plain-pointer table: \<^verbatim>\<open>DataStructure(16)\<close>, twelve courses to insert into it, the table
  after these inserts, after the \<^verbatim>\<open>insert\<close> of \<^verbatim>\<open>CSCI116\<close> that follows, and after the \<^verbatim>\<open>remove\<close>
  of \<^verbatim>\<open>CSCI116\<close> after that. The address of a node is its place in \<open>ptr_heap\<close>, counted from 0.
\<close>

definition twelve_courses :: "Course option list" where
  "twelve_courses =
     [Some (example_course ''CSCI100''), Some (example_course ''CSCI101''),
      Some (example_course ''CSCI102''), Some (example_course ''CSCI103''),
      Some (example_course ''CSCI104''), Some (example_course ''CSCI105''),
      Some (example_course ''CSCI106''), Some (example_course ''CSCI107''),
      Some (example_course ''CSCI108''), Some (example_course ''CSCI109''),
      Some (example_course ''CSCI110''), Some (example_course ''CSCI111'')]"

definition ptr_table16 :: PtrTable where
  "ptr_table16 = \<lparr>ptr_heap = [], ptr_buckets = replicate 16 None, ptr_capacity = 16,
                   ptr_size = 0, ptr_sortedCourses = []\<rparr>"

definition ptr_table12 :: PtrTable where
  "ptr_table12 =
     \<lparr>ptr_heap =
       [Some \<lparr>nodeCourse = example_course ''CSCI100'', nodeNext = None\<rparr>,
        Some \<lparr>nodeCourse = example_course ''CSCI101'', nodeNext = None\<rparr>,
        Some \<lparr>nodeCourse = example_course ''CSCI102'', nodeNext = None\<rparr>,
        Some \<lparr>nodeCourse = example_course ''CSCI103'', nodeNext = None\<rparr>,
        Some \<lparr>nodeCourse = example_course ''CSCI104'', nodeNext = None\<rparr>,
        Some \<lparr>nodeCourse = example_course ''CSCI105'', nodeNext = None\<rparr>,
        Some \<lparr>nodeCourse = example_course ''CSCI106'', nodeNext = None\<rparr>,
        Some \<lparr>nodeCourse = example_course ''CSCI107'', nodeNext = None\<rparr>,
        Some \<lparr>nodeCourse = example_course ''CSCI108'', nodeNext = None\<rparr>,
        Some \<lparr>nodeCourse = example_course ''CSCI109'', nodeNext = None\<rparr>,
        Some \<lparr>nodeCourse = example_course ''CSCI110'', nodeNext = None\<rparr>,
        Some \<lparr>nodeCourse = example_course ''CSCI111'', nodeNext = Some 0\<rparr>],
      ptr_buckets =
       [Some 5, Some 6, Some 7, Some 8, Some 9, None, None, None, None, None, Some 10,
        Some 11, Some 1, Some 2, Some 3, Some 4],
      ptr_capacity = 16, ptr_size = 12, ptr_sortedCourses = []\<rparr>"

definition ptr_table13 :: PtrTable where
  "ptr_table13 =
     \<lparr>ptr_heap =
       [Some \<lparr>nodeCourse = example_course ''CSCI100'', nodeNext = Some 11\<rparr>,
        Some \<lparr>nodeCourse = example_course ''CSCI101'', nodeNext = None\<rparr>,
        Some \<lparr>nodeCourse = example_course ''CSCI102'', nodeNext = None\<rparr>,
        Some \<lparr>nodeCourse = example_course ''CSCI103'', nodeNext = None\<rparr>,
        Some \<lparr>nodeCourse = example_course ''CSCI104'', nodeNext = None\<rparr>,
        Some \<lparr>nodeCourse = example_course ''CSCI105'', nodeNext = Some 12\<rparr>,
        Some \<lparr>nodeCourse = example_course ''CSCI106'', nodeNext = Some 6\<rparr>,
        Some \<lparr>nodeCourse = example_course ''CSCI107'', nodeNext = Some 7\<rparr>,
        Some \<lparr>nodeCourse = example_course ''CSCI108'', nodeNext = Some 8\<rparr>,
        Some \<lparr>nodeCourse = example_course ''CSCI109'', nodeNext = Some 9\<rparr>,
        Some \<lparr>nodeCourse = example_course ''CSCI110'', nodeNext = None\<rparr>,
        Some \<lparr>nodeCourse = example_course ''CSCI111'', nodeNext = None\<rparr>,
        Some \<lparr>nodeCourse = example_course ''CSCI116'', nodeNext = Some 12\<rparr>],
      ptr_buckets =
       [Some 5, Some 6, Some 7, Some 8, Some 9, None, None, None, None, None, Some 10,
        Some 11, Some 1, Some 2, Some 3, Some 4, None, None, None, None, None, None, None,
        None, None, None, Some 10, Some 0, Some 1, Some 2, Some 3, Some 4],
      ptr_capacity = 32, ptr_size = 13, ptr_sortedCourses = []\<rparr>"

definition ptr_table13_removed :: PtrTable where
  "ptr_table13_removed =
     \<lparr>ptr_heap =
       [Some \<lparr>nodeCourse = example_course ''CSCI100'', nodeNext = Some 11\<rparr>,
        Some \<lparr>nodeCourse = example_course ''CSCI101'', nodeNext = None\<rparr>,
        Some \<lparr>nodeCourse = example_course ''CSCI102'', nodeNext = None\<rparr>,
        Some \<lparr>nodeCourse = example_course ''CSCI103'', nodeNext = None\<rparr>,
        Some \<lparr>nodeCourse = example_course ''CSCI104'', nodeNext = None\<rparr>,
        Some \<lparr>nodeCourse = example_course ''CSCI105'', nodeNext = Some 12\<rparr>,
        Some \<lparr>nodeCourse = example_course ''CSCI106'', nodeNext = Some 6\<rparr>,
        Some \<lparr>nodeCourse = example_course ''CSCI107'', nodeNext = Some 7\<rparr>,
        Some \<lparr>nodeCourse = example_course ''CSCI108'', nodeNext = Some 8\<rparr>,
        Some \<lparr>nodeCourse = example_course ''CSCI109'', nodeNext = Some 9\<rparr>,
        Some \<lparr>nodeCourse = example_course ''CSCI110'', nodeNext = None\<rparr>,
        Some \<lparr>nodeCourse = example_course ''CSCI111'', nodeNext = None\<rparr>,
        None],
      ptr_buckets =
       [Some 5, Some 6, Some 7, Some 8, Some 9, None, None, None, None, None, Some 10,
        Some 11, Some 1, Some 2, Some 3, Some 4, None, None, None, None, None, None, None,
        None, None, None, Some 10, Some 0, Some 1, Some 2, Some 3, Some 4],
      ptr_capacity = 32, ptr_size = 12, ptr_sortedCourses = []\<rparr>"

section \<open>Verification\<close>

subsection \<open>The identifier check\<close>

lemma all_upt4: "(\<forall>i\<in>set [0..<4]. P (s ! i)) = (\<forall>c\<in>set (take 4 s). P c)" if "length s = 7"
  using that by (auto simp add: all_set_conv_all_nth)

lemma all_upt47: "(\<forall>i\<in>set [4..<7]. P (s ! i)) = (\<forall>c\<in>set (drop 4 s). P c)" if "length s = 7"
proof -
  have "(\<forall>c\<in>set (drop 4 s). P c) = (\<forall>j<3. P (s ! (4 + j)))"
    using that by (simp add: all_set_conv_all_nth)
  also have "\<dots> = (\<forall>i\<in>set [4..<7]. P (s ! i))"
  proof
    assume h: "\<forall>j<3. P (s ! (4 + j))"
    show "\<forall>i\<in>set [4..<7]. P (s ! i)"
    proof
      fix i assume "i \<in> set [4..<7]"
      then have "i - 4 < 3" "4 + (i - 4) = i" by auto
      with h show "P (s ! i)" by metis
    qed
  next
    assume "\<forall>i\<in>set [4..<7]. P (s ! i)"
    then show "\<forall>j<3. P (s ! (4 + j))" by (auto simp: less_Suc_eq numeral_3_eq_3)
  qed
  finally show ?thesis by simp
qed

text \<open>
  C8. \<^verbatim>\<open>courseNameValidator\<close> accepts a string exactly when it has seven characters, the first
  four of them ASCII letters and the last three ASCII digits; every other string is rejected.
\<close>

theorem courseNameValidator_iff:
  "courseNameValidator s \<longleftrightarrow>
     length s = 7 \<and> (\<forall>c \<in> set (take 4 s). isalpha c) \<and> (\<forall>c \<in> set (drop 4 s). isdigit c)"
proof (cases "length s = 7")
  case True
  then have "s \<noteq> []" by auto
  with True show ?thesis
    unfolding courseNameValidator_def
    using all_upt4[OF True, of isalpha] all_upt47[OF True, of isdigit] by auto
next
  case False
  then show ?thesis by (auto simp: courseNameValidator_def)
qed

theorem courseNameValidator_iff_witness:
  "courseNameValidator ''CSCI101'' \<and> \<not> courseNameValidator ''CS101''
   \<and> \<not> courseNameValidator ''CSC1101''"
  using courseNameValidator_iff[of "''CSCI101''"] courseNameValidator_iff[of "''CS101''"]
    courseNameValidator_iff[of "''CSC1101''"]
  by (simp add: isalpha_def isdigit_def)

subsection \<open>Building a course from fields\<close>

lemma defensive_copy_map: "defensive_copy input = map (\<lambda>item. trim (filter_chars item)) input"
  by (induction input) auto

lemma build_prereqs_filter: "build_prereqs fs = filter courseNameValidator fs"
  by (induction fs) auto

text \<open>
  C7. \<^verbatim>\<open>builder\<close> filters and then trims every field. It returns no course exactly when there
  are fewer than two fields, the first cleaned field is not a valid identifier or the second
  is not valid text. Otherwise the course has the first two cleaned fields as name and title,
  and its prerequisites are the cleaned fields from index 2 on that are valid identifiers, in
  order; the others are left out and the course is still built.
\<close>

theorem builder_spec:
  "(builder input = None \<longleftrightarrow>
      length input < 2
      \<or> \<not> courseNameValidator (trim (filter_chars (input ! 0)))
      \<or> \<not> courseDataValidator (trim (filter_chars (input ! 1))))
   \<and> (\<forall>c. builder input = Some c \<longrightarrow>
        courseName c = trim (filter_chars (input ! 0))
        \<and> courseTitle c = trim (filter_chars (input ! 1))
        \<and> coursePrerequisites c =
            filter courseNameValidator (map (\<lambda>item. trim (filter_chars item)) (drop 2 input)))"
proof (cases "length input < 2")
  case True
  then show ?thesis by (auto simp: builder_def defensive_copy_map)
next
  case False
  then have "input \<noteq> []" by auto
  with False show ?thesis
    by (auto simp: builder_def defensive_copy_map build_prereqs_filter Let_def drop_map)
qed

theorem builder_spec_witness:
  "builder [''CSCI101'', '' Intro to CS '', ''MATH101'', ''bad'', ''CSCI100''] =
     Some \<lparr>courseName = ''CSCI101'', courseTitle = ''Intro to CS'',
           coursePrerequisites = [''MATH101'', ''CSCI100'']\<rparr>
   \<and> builder [''CSCI101''] = None"
proof -
  let ?X = "[''CSCI101'', '' Intro to CS '', ''MATH101'', ''bad'', ''CSCI100'']"
  have v0: "trim (filter_chars ''CSCI101'') = ''CSCI101''" by code_simp
  have v1: "trim (filter_chars '' Intro to CS '') = ''Intro to CS''" by code_simp
  have v2: "courseNameValidator ''CSCI101''" by code_simp
  have v3: "courseDataValidator ''Intro to CS''" by code_simp
  have pr: "filter courseNameValidator
      (map (\<lambda>item. trim (filter_chars item)) [''MATH101'', ''bad'', ''CSCI100''])
      = [''MATH101'', ''CSCI100'']" by code_simp
  have all: "builder ?X \<noteq> None
     \<and> (\<forall>c. builder ?X = Some c
          \<longrightarrow> courseName c = ''CSCI101'' \<and> courseTitle c = ''Intro to CS''
              \<and> coursePrerequisites c = [''MATH101'', ''CSCI100''])"
    using builder_spec[of ?X]
    by (simp only: v0 v1 v2 v3 pr nth_Cons_0 nth_Cons_Suc One_nat_def drop_Suc_Cons drop_0
          numeral_2_eq_2 list.size) simp
  then obtain c where c: "builder ?X = Some c" by blast
  with all have "courseName c = ''CSCI101''" "courseTitle c = ''Intro to CS''"
    "coursePrerequisites c = [''MATH101'', ''CSCI100'']" by blast+
  then have "c = \<lparr>courseName = ''CSCI101'', courseTitle = ''Intro to CS'',
           coursePrerequisites = [''MATH101'', ''CSCI100'']\<rparr>" by (cases c) simp
  moreover have "builder [''CSCI101''] = None"
    using builder_spec[of "[''CSCI101'']"] by simp
  ultimately show ?thesis using c by simp
qed

subsection \<open>Splitting a line\<close>

lemma go_scan:
  "split_spec_go d inQ q cur rest =
     (cur @ strip_quotes (take (scan_field d inQ q rest) rest)) #
     (if dropWhile (\<lambda>x. x = d) (drop (Suc (scan_field d inQ q rest)) rest) = [] then []
      else split_spec_go d False (CHR 0x00) []
             (dropWhile (\<lambda>x. x = d) (drop (Suc (scan_field d inQ q rest)) rest)))"
proof (induction rest arbitrary: inQ q cur)
  case Nil
  then show ?case by simp
next
  case (Cons c cs)
  consider (qopen) "c = CHR 0x22 \<or> c = CHR 0x27" "\<not> inQ"
    | (qclose) "c = CHR 0x22 \<or> c = CHR 0x27" "inQ" "c = q"
    | (qother) "c = CHR 0x22 \<or> c = CHR 0x27" "inQ" "c \<noteq> q"
    | (delim) "\<not> (c = CHR 0x22 \<or> c = CHR 0x27)" "c = d \<and> \<not> inQ"
    | (plain) "\<not> (c = CHR 0x22 \<or> c = CHR 0x27)" "\<not> (c = d \<and> \<not> inQ)"
    by blast
  then show ?case
  proof cases
    case qopen
    then show ?thesis by (simp del: dropWhile_eq_Nil_conv add: Cons.IH[of True c cur])
  next
    case qclose
    then show ?thesis by (simp del: dropWhile_eq_Nil_conv add: Cons.IH[of False "CHR 0x00" cur])
  next
    case qother
    then show ?thesis by (auto simp del: dropWhile_eq_Nil_conv simp add: Cons.IH[of True q cur])
  next
    case delim
    then show ?thesis by (simp del: dropWhile_eq_Nil_conv)
  next
    case plain
    then show ?thesis
      by (cases inQ)
        (simp_all del: dropWhile_eq_Nil_conv
          add: Cons.IH[of True q "cur @ [c]"] Cons.IH[of False q "cur @ [c]"])
  qed
qed

lemma split_loop_Nil: "split_loop d [] = []"
  by (simp add: split_loop.simps)

lemma split_loop_go:
  "rest \<noteq> [] \<Longrightarrow> split_loop d rest = split_spec_go d False (CHR 0x00) [] rest"
proof (induction d rest rule: split_loop.induct)
  case (1 d rest)
  define r where "r = dropWhile (\<lambda>c. c = d) (drop (Suc (scan_field d False (CHR 0x00) rest)) rest)"
  have step: "split_loop d rest =
      strip_quotes (take (scan_field d False (CHR 0x00) rest) rest) # split_loop d r"
    using "1.prems" by (subst split_loop.simps) (simp add: Let_def r_def)
  have tl: "split_loop d r = (if r = [] then [] else split_spec_go d False (CHR 0x00) [] r)"
  proof (cases "r = []")
    case True
    then show ?thesis by (simp add: split_loop_Nil)
  next
    case False
    with "1.IH"[OF "1.prems" refl refl, folded r_def] show ?thesis by simp
  qed
  have "split_spec_go d False (CHR 0x00) [] rest =
      strip_quotes (take (scan_field d False (CHR 0x00) rest) rest) #
      (if r = [] then [] else split_spec_go d False (CHR 0x00) [] r)"
    by (subst go_scan) (simp add: r_def)
  with step tl show ?case by simp
qed

lemma strip_quotes_set: "set (strip_quotes s) = set s - {CHR 0x22, CHR 0x27}"
  by (induction s) auto

lemma split_loop_no_quotes:
  "f \<in> set (split_loop d rest) \<Longrightarrow> CHR 0x22 \<notin> set f \<and> CHR 0x27 \<notin> set f"
proof (induction d rest arbitrary: f rule: split_loop.induct)
  case (1 d rest)
  show ?case
  proof (cases "rest = []")
    case True
    with "1.prems" show ?thesis by (simp add: split_loop_Nil)
  next
    case False
    define r where "r = dropWhile (\<lambda>c. c = d) (drop (Suc (scan_field d False (CHR 0x00) rest)) rest)"
    have step: "split_loop d rest =
        strip_quotes (take (scan_field d False (CHR 0x00) rest) rest) # split_loop d r"
      using False by (subst split_loop.simps) (simp add: Let_def r_def)
    from "1.prems" step
    consider "f = strip_quotes (take (scan_field d False (CHR 0x00) rest) rest)"
      | "f \<in> set (split_loop d r)"
      by auto
    then show ?thesis
    proof cases
      case 1
      then show ?thesis by (simp add: strip_quotes_set)
    next
      case 2
      with "1.IH"[OF False refl refl, folded r_def] show ?thesis by simp
    qed
  qed
qed

text \<open>
  C5, as stated, fails for \<^verbatim>\<open>split\<close> of \<^verbatim>\<open>ProjectTwoUniversal.cpp\<close>, which has no quote state:
  it cuts the line \<^verbatim>\<open>CS10101,"Intro, to CS",\<close> at both commas and leaves the quote characters in
  the fields.
\<close>

theorem split_plain_cuts_quoted_field:
  "split_line_plain (''CS10101,'' @ [CHR 0x22] @ ''Intro, to CS'' @ [CHR 0x22] @ '','') '',''
     = [''CS10101'', [CHR 0x22] @ ''Intro'', '' to CS'' @ [CHR 0x22]]
   \<and> split_line_plain (''CS10101,'' @ [CHR 0x22] @ ''Intro, to CS'' @ [CHR 0x22] @ '','') '','' ! 1
     \<noteq> ''Intro, to CS''"
  by code_simp

text \<open>
  C5, amended: for \<^verbatim>\<open>split\<close> of the unique_ptr edition. The separator is the first character of
  the delimiter string, and the terminating NUL if the string is empty. For every line,
  \<^verbatim>\<open>split\<close> returns what the one-pass reading of the specification (\<open>split_spec\<close>) returns for
  that character: the line is cut at a separator only outside a quoted segment, a segment is
  closed by the quote character that opened it, and the separators that directly follow a cut
  are skipped. No field it returns holds a quote character. The line
  \<^verbatim>\<open>CS10101,"Intro, to CS",\<close> gives the two fields \<^verbatim>\<open>CS10101\<close> and \<^verbatim>\<open>Intro, to CS\<close>; the line
  \<^verbatim>\<open>MATH201;'Calculus; part 1';;CSCI100\<close> cut at \<^verbatim>\<open>;\<close> gives \<^verbatim>\<open>MATH201\<close>, \<^verbatim>\<open>Calculus; part 1\<close> and
  \<^verbatim>\<open>CSCI100\<close>; and in \<^verbatim>\<open>"it's, here",x\<close> the single quote inside the double quotes closes
  nothing and is dropped: \<^verbatim>\<open>its, here\<close> and \<^verbatim>\<open>x\<close>.
\<close>

theorem split_line_quoted:
  "split_line input (d # ds) = split_spec input d
   \<and> split_line input [] = split_spec input (CHR 0x00)
   \<and> (\<forall>f \<in> set (split_line input delimiter). CHR 0x22 \<notin> set f \<and> CHR 0x27 \<notin> set f)
   \<and> split_line (''CS10101,'' @ [CHR 0x22] @ ''Intro, to CS'' @ [CHR 0x22] @ '','') '',''
       = [''CS10101'', ''Intro, to CS'']
   \<and> split_line (''MATH201;'' @ [CHR 0x27] @ ''Calculus; part 1'' @ [CHR 0x27] @ '';;CSCI100'') '';''
       = [''MATH201'', ''Calculus; part 1'', ''CSCI100'']
   \<and> split_line ([CHR 0x22] @ ''it'' @ [CHR 0x27] @ ''s, here'' @ [CHR 0x22] @ '',x'') '',''
       = [''its, here'', ''x'']"
proof (intro conjI)
  show "split_line input (d # ds) = split_spec input d"
    by (auto simp add: split_line_def split_spec_def delimiter0_def split_loop_go)
  show "split_line input [] = split_spec input (CHR 0x00)"
    by (auto simp add: split_line_def split_spec_def delimiter0_def split_loop_go)
  show "\<forall>f \<in> set (split_line input delimiter). CHR 0x22 \<notin> set f \<and> CHR 0x27 \<notin> set f"
    using split_loop_no_quotes by (auto simp: split_line_def)
  show "split_line (''CS10101,'' @ [CHR 0x22] @ ''Intro, to CS'' @ [CHR 0x22] @ '','') '',''
      = [''CS10101'', ''Intro, to CS'']"
    by code_simp
  show "split_line (''MATH201;'' @ [CHR 0x27] @ ''Calculus; part 1'' @ [CHR 0x27] @ '';;CSCI100'') '';''
       = [''MATH201'', ''Calculus; part 1'', ''CSCI100'']"
    by code_simp
  show "split_line ([CHR 0x22] @ ''it'' @ [CHR 0x27] @ ''s, here'' @ [CHR 0x22] @ '',x'') '',''
       = [''its, here'', ''x'']"
    by code_simp
qed

theorem split_line_quoted_witness:
  "split_spec ''a,b'' (CHR '','') = [''a'', ''b'']
   \<and> CHR 0x22 \<notin> set (hd (split_line ''a,b'' '','')) \<and> CHR 0x27 \<notin> set (hd (split_line ''a,b'' '',''))"
proof -
  have e: "split_line ''a,b'' '','' = [''a'', ''b'']" by code_simp
  from split_line_quoted[of "''a,b''" "CHR '',''" "[]" "'',''"]
  have "split_line ''a,b'' '','' = split_spec ''a,b'' (CHR '','')" by blast
  with e have "split_spec ''a,b'' (CHR '','') = [''a'', ''b'']" by (simp only:)
  then show ?thesis by (simp add: e)
qed

subsection \<open>Well-formed tables\<close>

lemma hash_loop_bound:
  "0 < cap \<Longrightarrow> h0 < cap \<Longrightarrow> \<exists>h. hash_loop cap h0 key = Inr h \<and> h < cap"
  by (induction key arbitrary: h0) auto

lemma hash_ok: "0 < capacity t \<Longrightarrow> \<exists>h. hash t key = Inr h \<and> h < capacity t"
  unfolding hash_def by (rule hash_loop_bound) auto

lemma rehash_chain_ok:
  "table_ok t \<Longrightarrow> \<exists>t'. rehash_chain t chain = Inr t' \<and> table_ok t' \<and> capacity t' = capacity t
      \<and> size_field t' = size_field t \<and> sortedCourses t' = sortedCourses t \<and> sorted_field t' = sorted_field t"
proof (induction chain arbitrary: t)
  case Nil
  then show ?case by simp
next
  case (Cons c chain)
  from Cons.prems obtain h where h: "hash t (courseName c) = Inr h" "h < capacity t"
    using hash_ok[of t "courseName c"] by (auto simp: table_ok_def)
  let ?t1 = "t\<lparr>buckets := (buckets t)[h := c # buckets t ! h]\<rparr>"
  have ok1: "table_ok ?t1" using Cons.prems by (simp add: table_ok_def)
  from Cons.IH[OF ok1] h Cons.prems show ?case by (auto simp: table_ok_def)
qed

lemma rehash_buckets_ok:
  "table_ok t \<Longrightarrow> \<exists>t'. rehash_buckets t bs = Inr t' \<and> table_ok t' \<and> capacity t' = capacity t
      \<and> size_field t' = size_field t \<and> sortedCourses t' = sortedCourses t \<and> sorted_field t' = sorted_field t"
proof (induction bs arbitrary: t)
  case Nil
  then show ?case by simp
next
  case (Cons b bs)
  from rehash_chain_ok[OF Cons.prems, of b] obtain t1 where
    t1: "rehash_chain t b = Inr t1" "table_ok t1" "capacity t1 = capacity t"
     "size_field t1 = size_field t" "sortedCourses t1 = sortedCourses t" "sorted_field t1 = sorted_field t" by blast
  from Cons.IH[OF t1(2)] t1 show ?case by auto
qed

lemma resize_ok:
  assumes "table_ok t" "resize t = Inr t'"
  shows "table_ok t' \<and> capacity t' = 2 * capacity t \<and> size_field t' = size_field t
     \<and> sortedCourses t' = sortedCourses t \<and> sorted_field t' = sorted_field t"
proof -
  let ?c = "(capacity t * 2) mod 2 ^ 64"
  from assms(1) have lt: "capacity t * 2 < 2 ^ 64" by (simp add: table_ok_def vector_max_size_def)
  then have c: "?c = 2 * capacity t" by simp
  from assms(2) have le: "?c \<le> vector_max_size"
    by (auto simp: resize_def Let_def fresh_buckets_def split: if_splits)
  let ?t0 = "t\<lparr>buckets := replicate ?c [], capacity := ?c\<rparr>"
  have ok0: "table_ok ?t0" using assms(1) le c by (simp add: table_ok_def)
  from assms(2) le assms(1) have r: "rehash_buckets ?t0 (take (capacity t) (buckets t)) = Inr t'"
    by (auto simp: resize_def Let_def fresh_buckets_def table_ok_def split: if_splits)
  from rehash_buckets_ok[OF ok0, of "take (capacity t) (buckets t)"] r c show ?thesis by auto
qed

lemma resize_not_oor:
  assumes "table_ok t"
  shows "resize t = Inl LengthError \<or> (\<exists>t'. resize t = Inr t')"
proof -
  let ?c = "(capacity t * 2) mod 2 ^ 64"
  show ?thesis
  proof (cases "?c \<le> vector_max_size")
    case True
    let ?t0 = "t\<lparr>buckets := replicate ?c [], capacity := ?c\<rparr>"
    from assms have lt: "capacity t * 2 < 2 ^ 64" by (simp add: table_ok_def vector_max_size_def)
    have ok0: "table_ok ?t0" using assms True lt by (simp add: table_ok_def)
    from rehash_buckets_ok[OF ok0, of "take (capacity t) (buckets t)"] True assms
    show ?thesis by (auto simp: resize_def Let_def fresh_buckets_def table_ok_def)
  next
    case False
    then show ?thesis by (simp add: resize_def Let_def fresh_buckets_def)
  qed
qed

lemma insert_course_ok:
  assumes "table_ok t" "insert_course t c = Inr t'"
  shows "table_ok t'"
proof (cases c)
  case None
  with assms show ?thesis by (simp add: insert_course_def)
next
  case (Some x)
  from assms(1) obtain h where h: "hash t (courseName x) = Inr h" "h < capacity t"
    using hash_ok[of t "courseName x"] by (auto simp: table_ok_def)
  obtain b chain where w: "insert_walk (courseName x) (buckets t ! h) = (b, chain)"
    by (cases "insert_walk (courseName x) (buckets t ! h)")
  show ?thesis
  proof (cases b)
    case True
    with assms Some h w show ?thesis by (auto simp: insert_course_def table_ok_def)
  next
    case False
    let ?t1 = "t\<lparr>buckets := (buckets t)[h := x # chain], size_field := (size_field t + 1) mod 2 ^ 64\<rparr>"
    have ok1: "table_ok ?t1" using assms(1) by (simp add: table_ok_def)
    show ?thesis
    proof (cases "load_factor_exceeded ?t1")
      case True
      with assms Some h w False obtain t2 where t2: "resize ?t1 = Inr t2" "t' = t2\<lparr>sorted_field := False\<rparr>"
        by (auto simp: insert_course_def table_ok_def Let_def split: sum.splits)
      from resize_ok[OF ok1 t2(1)] t2(2) show ?thesis by (simp add: table_ok_def)
    next
      case lf: False
      with assms Some h w False have "t' = ?t1\<lparr>sorted_field := False\<rparr>"
        by (auto simp: insert_course_def table_ok_def Let_def)
      with ok1 show ?thesis by (simp add: table_ok_def)
    qed
  qed
qed

lemma insert_course_not_oor:
  assumes "table_ok t"
  shows "insert_course t c = Inl LengthError \<or> (\<exists>t'. insert_course t c = Inr t')"
proof (cases c)
  case None
  then show ?thesis by (simp add: insert_course_def)
next
  case (Some x)
  from assms(1) obtain h where h: "hash t (courseName x) = Inr h" "h < capacity t"
    using hash_ok[of t "courseName x"] by (auto simp: table_ok_def)
  obtain b chain where w: "insert_walk (courseName x) (buckets t ! h) = (b, chain)"
    by (cases "insert_walk (courseName x) (buckets t ! h)")
  let ?t1 = "t\<lparr>buckets := (buckets t)[h := x # chain], size_field := (size_field t + 1) mod 2 ^ 64\<rparr>"
  have ok1: "table_ok ?t1" using assms(1) by (simp add: table_ok_def)
  from resize_not_oor[OF ok1] assms Some h w show ?thesis
    by (cases b) (auto simp: insert_course_def table_ok_def Let_def)
qed

lemma remove_course_ok:
  assumes "table_ok t" "remove_course t name = Inr t'"
  shows "table_ok t'"
proof (cases "name = []")
  case True
  with assms show ?thesis by (simp add: remove_course_def)
next
  case False
  from assms(1) obtain h where h: "hash t name = Inr h" "h < capacity t"
    using hash_ok[of t name] by (auto simp: table_ok_def)
  obtain b chain where w: "remove_walk name False (buckets t ! h) = (b, chain)"
    by (cases "remove_walk name False (buckets t ! h)")
  from assms False h w show ?thesis
    by (cases b) (auto simp: remove_course_def table_ok_def)
qed

lemma remove_course_total:
  assumes "table_ok t"
  shows "\<exists>t'. remove_course t name = Inr t'"
proof (cases "name = []")
  case True
  then show ?thesis by (simp add: remove_course_def)
next
  case False
  from assms(1) obtain h where h: "hash t name = Inr h" "h < capacity t"
    using hash_ok[of t name] by (auto simp: table_ok_def)
  obtain b chain where w: "remove_walk name False (buckets t ! h) = (b, chain)"
    by (cases "remove_walk name False (buckets t ! h)")
  from assms False h w show ?thesis
    by (cases b) (auto simp: remove_course_def table_ok_def)
qed

lemma get_total:
  assumes "table_ok t"
  shows "\<exists>r. get t name = Inr r"
proof -
  from assms(1) obtain h where h: "hash t name = Inr h" "h < capacity t"
    using hash_ok[of t name] by (auto simp: table_ok_def)
  with assms show ?thesis by (auto simp: get_def table_ok_def)
qed

subsection \<open>inject: the loop that may not end\<close>

lemma inject_walk_Nil: "inject_walk key [] = Some []"
  by (subst inject_walk.simps) simp

lemma inject_walk_other:
  "courseName n \<noteq> key \<Longrightarrow> inject_walk key (n # rest) = inject_walk key rest"
  by (subst inject_walk.simps) simp

lemma inject_walk_returns:
  assumes "inject_walk key chain = Some r"
  shows "key \<notin> courseName ` set chain \<and> r = []"
proof (rule inject_walk.raw_induct[where P = "\<lambda>key chain r. key \<notin> courseName ` set chain \<and> r = []", OF _ assms])
  fix f key chain r
  assume IH: "\<And>key chain r. f key chain = Some r \<Longrightarrow> key \<notin> courseName ` set chain \<and> r = []"
    and step: "(case chain of [] \<Rightarrow> Some []
         | currentNode # nextNode \<Rightarrow>
             if courseName currentNode = key then f key chain else f key nextNode) = Some r"
  show "key \<notin> courseName ` set chain \<and> r = []"
  proof (cases chain)
    case Nil
    with step show ?thesis by simp
  next
    case (Cons n rest)
    show ?thesis
    proof (cases "courseName n = key")
      case True
      with step Cons have "f key chain = Some r" by simp
      from IH[OF this] show ?thesis .
    next
      case False
      with step Cons have "f key rest = Some r" by simp
      from IH[OF this] False Cons show ?thesis by auto
    qed
  qed
qed

lemma inject_walk_eq:
  "inject_walk key chain = (if key \<in> courseName ` set chain then None else Some [])"
proof (cases "key \<in> courseName ` set chain")
  case True
  then have "inject_walk key chain = None"
    using inject_walk_returns[of key chain] by (cases "inject_walk key chain") auto
  with True show ?thesis by simp
next
  case False
  then have "inject_walk key chain = Some []"
    by (induction chain) (auto simp: inject_walk_Nil inject_walk_other)
  with False show ?thesis by simp
qed

lemma inject_loop_ok:
  "table_ok t \<Longrightarrow> inject_loop t cs = Some (Inr t') \<Longrightarrow> table_ok t' \<and> capacity t' = capacity t"
proof (induction t cs rule: inject_loop.induct)
  case (1 t)
  then show ?case by simp
next
  case (2 t rest)
  then show ?case by simp
next
  case (3 t c rest)
  from "3.prems"(1) obtain h where h: "hash t (courseName c) = Inr h" "h < capacity t"
    using hash_ok[of t "courseName c"] by (auto simp: table_ok_def)
  with "3.prems" have hl: "h < length (buckets t)" by (simp add: table_ok_def)
  from "3.prems"(2) h hl obtain chain where
    ch: "inject_walk (courseName c) (buckets t ! h) = Some chain"
    and rest: "inject_loop (t\<lparr>buckets := (buckets t)[h := c # chain]\<rparr>) rest = Some (Inr t')"
    by (auto split: option.splits)
  have ok1: "table_ok (t\<lparr>buckets := (buckets t)[h := c # chain]\<rparr>)"
    using "3.prems"(1) by (simp add: table_ok_def)
  from "3.IH"[OF h(1) hl ch ok1 rest] show ?case by simp
qed

lemma inject_ok:
  assumes "table_ok t" "inject t cs = Some (Inr t')"
  shows "table_ok t' \<and> capacity t' = capacity t"
proof (cases "cs = []")
  case True
  with assms show ?thesis by (simp add: inject_def)
next
  case False
  let ?t0 = "t\<lparr>buckets := replicate (capacity t) [], size_field := 0\<rparr>"
  have ok0: "table_ok ?t0" using assms(1) by (simp add: table_ok_def)
  from assms False obtain t1 where t1: "inject_loop ?t0 cs = Some (Inr t1)" "t' = t1\<lparr>sorted_field := False\<rparr>"
    by (auto simp: inject_def fresh_buckets_def table_ok_def split: option.splits sum.splits if_splits)
  from inject_loop_ok[OF ok0 t1(1)] t1(2) show ?thesis by (simp add: table_ok_def)
qed

subsection \<open>Reachable tables are well formed\<close>

lemma sort_courses_ok: "table_ok t \<Longrightarrow> sort_courses t = Inr t' \<Longrightarrow> table_ok t'"
  by (auto simp: sort_courses_def table_ok_def split: if_splits)

lemma getSorted_ok: "table_ok t \<Longrightarrow> getSorted t = Inr (t', cs) \<Longrightarrow> table_ok t'"
  by (auto simp: getSorted_def sort_courses_def table_ok_def split: if_splits)

lemma new_table_ok: "table_ok new_table"
  by (simp add: new_table_def table_ok_def vector_max_size_def)

lemma new_table_cap_ok: "new_table_cap cap = Inr t \<Longrightarrow> table_ok t"
  by (auto simp: new_table_cap_def fresh_buckets_def table_ok_def Let_def split: if_splits)

lemma reachable_ok: "reachable t \<Longrightarrow> table_ok t"
proof (induction rule: reachable.induct)
  case r_new
  show ?case by (rule new_table_ok)
next
  case (r_new_cap cap t)
  then show ?case by (blast dest: new_table_cap_ok)
next
  case (r_insert t c t')
  then show ?case by (blast dest: insert_course_ok)
next
  case (r_remove t name t')
  then show ?case by (blast dest: remove_course_ok)
next
  case (r_inject t newCourses t')
  then show ?case by (blast dest: inject_ok)
next
  case (r_resize t t')
  then show ?case by (blast dest: resize_ok)
next
  case (r_sort t t')
  then show ?case by (blast dest: sort_courses_ok)
next
  case (r_getSorted t t' cs)
  then show ?case by (blast dest: getSorted_ok)
qed

lemma insert_all_append:
  "insert_all t (xs @ ys) = (case insert_all t xs of Inl e \<Rightarrow> Inl e | Inr t' \<Rightarrow> insert_all t' ys)"
  by (induction xs arbitrary: t) (auto split: sum.splits)

lemma reachable_insert_all:
  "reachable t \<Longrightarrow> insert_all t cs = Inr t' \<Longrightarrow> reachable t'"
proof (induction cs arbitrary: t)
  case Nil
  then show ?case by simp
next
  case (Cons c cs)
  from Cons.prems(2) obtain t1 where t1: "insert_course t c = Inr t1" "insert_all t1 cs = Inr t'"
    by (auto split: sum.splits)
  from Cons.prems(1) t1(1) have "reachable t1" by (rule r_insert)
  from Cons.IH[OF this t1(2)] show ?case .
qed

lemma insert_null_noop: "insert_course t None = Inr t"
  by (simp add: insert_course_def)

lemma sort_courses_sorted:
  assumes "table_ok t" "sort_courses t = Inr t'"
  shows "sorted (map courseName (sortedCourses t')) \<and> mset (sortedCourses t') = mset (entries t)
     \<and> sorted_field t' \<and> buckets t' = buckets t"
  using assms by (auto simp: sort_courses_def table_ok_def entries_def split: if_splits)

subsection \<open>Rehashing and the load factor\<close>

lemma mset_concat_push:
  "h < length bs \<Longrightarrow> mset (concat (bs[h := x # bs ! h])) = add_mset x (mset (concat bs))"
proof (induction bs arbitrary: h)
  case Nil
  then show ?case by simp
next
  case (Cons b bs)
  then show ?case by (cases h) auto
qed

lemma hash_update_buckets [simp]: "hash (t\<lparr>buckets := bs\<rparr>) key = hash t key"
  by (simp add: hash_def)

lemma rehash_chain_entries:
  "table_ok t \<Longrightarrow> rehash_chain t chain = Inr t' \<Longrightarrow>
     mset (entries t') = mset chain + mset (entries t)"
proof (induction chain arbitrary: t)
  case Nil
  then show ?case by simp
next
  case (Cons c chain)
  from Cons.prems obtain h where h: "hash t (courseName c) = Inr h" "h < capacity t"
    using hash_ok[of t "courseName c"] by (auto simp: table_ok_def)
  let ?t1 = "t\<lparr>buckets := (buckets t)[h := c # buckets t ! h]\<rparr>"
  have hl: "h < length (buckets t)" using h Cons.prems by (simp add: table_ok_def)
  have ok1: "table_ok ?t1" using Cons.prems by (simp add: table_ok_def)
  from Cons.prems(2) h hl have r: "rehash_chain ?t1 chain = Inr t'" by simp
  from Cons.IH[OF ok1 r] hl show ?case by (simp add: entries_def mset_concat_push)
qed

lemma rehash_chain_placed:
  "table_ok t \<Longrightarrow> placed t \<Longrightarrow> rehash_chain t chain = Inr t' \<Longrightarrow> placed t'"
proof (induction chain arbitrary: t)
  case Nil
  then show ?case by simp
next
  case (Cons c chain)
  from Cons.prems obtain h where h: "hash t (courseName c) = Inr h" "h < capacity t"
    using hash_ok[of t "courseName c"] by (auto simp: table_ok_def)
  let ?t1 = "t\<lparr>buckets := (buckets t)[h := c # buckets t ! h]\<rparr>"
  have hl: "h < length (buckets t)" using h Cons.prems by (simp add: table_ok_def)
  have ok1: "table_ok ?t1" using Cons.prems by (simp add: table_ok_def)
  have p1: "placed ?t1"
    unfolding placed_def
  proof (intro allI impI ballI)
    fix i e assume i: "i < length (buckets ?t1)" and e: "e \<in> set (buckets ?t1 ! i)"
    show "hash ?t1 (courseName e) = Inr i"
    proof (cases "i = h")
      case True
      with e hl have "e = c \<or> e \<in> set (buckets t ! h)" by auto
      with h True Cons.prems(2) hl show ?thesis by (auto simp: placed_def)
    next
      case False
      with e i Cons.prems(2) show ?thesis by (auto simp: placed_def)
    qed
  qed
  from Cons.prems(3) h hl have r: "rehash_chain ?t1 chain = Inr t'" by simp
  from Cons.IH[OF ok1 p1 r] show ?case .
qed

lemma rehash_buckets_entries:
  "table_ok t \<Longrightarrow> rehash_buckets t bs = Inr t' \<Longrightarrow>
     mset (entries t') = mset (concat bs) + mset (entries t)"
proof (induction bs arbitrary: t)
  case Nil
  then show ?case by simp
next
  case (Cons b bs)
  from rehash_chain_ok[OF Cons.prems(1), of b] obtain t1 where
    t1: "rehash_chain t b = Inr t1" "table_ok t1" by blast
  with Cons.prems(2) have r: "rehash_buckets t1 bs = Inr t'" by simp
  from Cons.IH[OF t1(2) r] rehash_chain_entries[OF Cons.prems(1) t1(1)] show ?case by simp
qed

lemma rehash_buckets_placed:
  "table_ok t \<Longrightarrow> placed t \<Longrightarrow> rehash_buckets t bs = Inr t' \<Longrightarrow> placed t'"
proof (induction bs arbitrary: t)
  case Nil
  then show ?case by simp
next
  case (Cons b bs)
  from rehash_chain_ok[OF Cons.prems(1), of b] obtain t1 where
    t1: "rehash_chain t b = Inr t1" "table_ok t1" by blast
  with Cons.prems(3) have r: "rehash_buckets t1 bs = Inr t'" by simp
  from rehash_chain_placed[OF Cons.prems(1,2) t1(1)] have "placed t1" .
  from Cons.IH[OF t1(2) this r] show ?case .
qed

lemma resize_entries:
  assumes "table_ok u" "resize u = Inr u'"
  shows "mset (entries u') = mset (entries u) \<and> placed u'"
proof -
  let ?c = "(capacity u * 2) mod 2 ^ 64"
  from assms(1) have lt: "capacity u * 2 < 2 ^ 64" by (simp add: table_ok_def vector_max_size_def)
  from assms(2) have le: "?c \<le> vector_max_size"
    by (auto simp: resize_def Let_def fresh_buckets_def split: if_splits)
  let ?t0 = "u\<lparr>buckets := replicate ?c [], capacity := ?c\<rparr>"
  have ok0: "table_ok ?t0" using assms(1) le lt by (simp add: table_ok_def)
  have p0: "placed ?t0" by (simp add: placed_def)
  have e0: "entries ?t0 = []" by (simp add: entries_def)
  from assms(2) le assms(1) have r: "rehash_buckets ?t0 (take (capacity u) (buckets u)) = Inr u'"
    by (auto simp: resize_def Let_def fresh_buckets_def table_ok_def split: if_splits)
  from assms(1) have tk: "take (capacity u) (buckets u) = buckets u" by (simp add: table_ok_def)
  from rehash_buckets_entries[OF ok0 r] rehash_buckets_placed[OF ok0 p0 r] e0 tk
  show ?thesis by (simp add: entries_def)
qed

text \<open>
  Below a capacity of \<open>2 ^ 52\<close> and a size of \<open>2 ^ 53\<close> the test on doubles is the comparison
  \<open>3 * capacity < 4 * size\<close> of integers: both numbers are doubles, and two different fractions
  with such denominators are more than a rounding step apart.
\<close>

lemma excess_bits_small: "n < 2 ^ 53 \<Longrightarrow> excess_bits n = 0"
  by (subst excess_bits.simps) simp

lemma to_double_small: "n < 2 ^ 53 \<Longrightarrow> to_double n = n"
  by (simp add: to_double_def excess_bits_small)

lemma threshold_exact:
  "c < 2 ^ 52 \<Longrightarrow> ((3 * 2 ^ 52 + 1) * c < 2 ^ 54 * s) = (3 * c < 4 * s)" for s c :: nat
  by auto

lemma load_exceeded_exact:
  "s < 2 ^ 53 \<Longrightarrow> c < 2 ^ 52 \<Longrightarrow> load_exceeded s c = (3 * c < 4 * s)"
  using threshold_exact[of c s] by (auto simp: load_exceeded_def to_double_small Let_def)

lemma load_factor_exceeded_exact:
  "size_field t < 2 ^ 53 \<Longrightarrow> capacity t < 2 ^ 52 \<Longrightarrow>
     load_factor_exceeded t = (3 * capacity t < 4 * size_field t)"
  by (simp add: load_factor_exceeded_def load_exceeded_exact)

text \<open>
  Beyond that the two differ. With a capacity of \<open>2 ^ 54\<close> and a size of \<open>3 * 2 ^ 52 + 1\<close> the
  size is rounded to \<open>3 * 2 ^ 52\<close> on its way to a double, the quotient is 0.75, and the test
  fails although the size is above three quarters of the capacity.
\<close>

lemma excess_bits_one: "2 ^ 53 \<le> n \<Longrightarrow> n < 2 ^ 54 \<Longrightarrow> excess_bits n = 1"
  by (subst excess_bits.simps) (simp add: excess_bits_small)

lemma excess_bits_two: "2 ^ 54 \<le> n \<Longrightarrow> n < 2 ^ 55 \<Longrightarrow> excess_bits n = 2"
  by (subst excess_bits.simps) (simp add: excess_bits_one)

lemma load_exceeded_rounds:
  "\<not> load_exceeded (3 * 2 ^ 52 + 1) (2 ^ 54) \<and> (3::nat) * 2 ^ 54 < 4 * (3 * 2 ^ 52 + 1)"
proof -
  have a: "to_double (3 * 2 ^ 52 + 1) = 3 * 2 ^ 52"
    by (simp add: to_double_def excess_bits_one Let_def)
  have b: "to_double (2 ^ 54) = 2 ^ 54"
    by (simp add: to_double_def excess_bits_two Let_def)
  show ?thesis unfolding load_exceeded_def a b by simp
qed

lemma insert_course_capacity_mono:
  assumes "table_ok t" "insert_course t c = Inr t'"
  shows "capacity t \<le> capacity t'"
proof (cases c)
  case None
  with assms show ?thesis by (simp add: insert_course_def)
next
  case (Some x)
  from assms(1) obtain h where h: "hash t (courseName x) = Inr h" "h < capacity t"
    using hash_ok[of t "courseName x"] by (auto simp: table_ok_def)
  obtain b chain where w: "insert_walk (courseName x) (buckets t ! h) = (b, chain)"
    by (cases "insert_walk (courseName x) (buckets t ! h)")
  show ?thesis
  proof (cases b)
    case True
    with assms Some h w show ?thesis by (auto simp: insert_course_def table_ok_def)
  next
    case False
    let ?t1 = "t\<lparr>buckets := (buckets t)[h := x # chain], size_field := (size_field t + 1) mod 2 ^ 64\<rparr>"
    have ok1: "table_ok ?t1" using assms(1) by (simp add: table_ok_def)
    show ?thesis
    proof (cases "load_factor_exceeded ?t1")
      case True
      with assms Some h w False obtain t2 where t2: "resize ?t1 = Inr t2" "t' = t2\<lparr>sorted_field := False\<rparr>"
        by (auto simp: insert_course_def table_ok_def Let_def split: sum.splits)
      from resize_ok[OF ok1 t2(1)] t2(2) show ?thesis by simp
    next
      case lf: False
      with assms Some h w False have "t' = ?t1\<lparr>sorted_field := False\<rparr>"
        by (auto simp: insert_course_def table_ok_def Let_def)
      then show ?thesis by simp
    qed
  qed
qed

lemma insert_all_capacity_mono:
  "table_ok t0 \<Longrightarrow> insert_all t0 cs = Inr t \<Longrightarrow> capacity t0 \<le> capacity t"
proof (induction cs arbitrary: t0)
  case Nil
  then show ?case by simp
next
  case (Cons c cs)
  from Cons.prems(2) obtain t1 where t1: "insert_course t0 c = Inr t1" "insert_all t1 cs = Inr t"
    by (auto split: sum.splits)
  from insert_course_ok[OF Cons.prems(1) t1(1)] have "table_ok t1" .
  from Cons.IH[OF this t1(2)] insert_course_capacity_mono[OF Cons.prems(1) t1(1)]
  show ?case by simp
qed

lemma insert_course_step:
  assumes ok: "table_ok t" and ld: "load_ok t" and small: "capacity t < 2 ^ 52"
    and ins: "insert_course t c = Inr t'"
  shows "(size_field t' = size_field t \<and> capacity t' = capacity t)
       \<or> (size_field t' = size_field t + 1
           \<and> capacity t' = (if 3 * capacity t < 4 * (size_field t + 1) then 2 * capacity t else capacity t))"
proof (cases c)
  case None
  with ins show ?thesis by (simp add: insert_course_def)
next
  case (Some x)
  from ok obtain h where h: "hash t (courseName x) = Inr h" "h < capacity t"
    using hash_ok[of t "courseName x"] by (auto simp: table_ok_def)
  obtain b chain where w: "insert_walk (courseName x) (buckets t ! h) = (b, chain)"
    by (cases "insert_walk (courseName x) (buckets t ! h)")
  from ld small have sz: "size_field t + 1 < 2 ^ 53"
    by (simp add: load_ok_def)
  then have sz64: "size_field t + 1 < 2 ^ 64" by simp
  show ?thesis
  proof (cases b)
    case True
    with ins Some h w ok show ?thesis by (auto simp: insert_course_def table_ok_def)
  next
    case False
    let ?t1 = "t\<lparr>buckets := (buckets t)[h := x # chain], size_field := (size_field t + 1) mod 2 ^ 64\<rparr>"
    have ok1: "table_ok ?t1" using ok by (simp add: table_ok_def)
    have ex: "load_factor_exceeded ?t1 = (3 * capacity t < 4 * (size_field t + 1))"
      using load_factor_exceeded_exact[of ?t1] sz sz64 small by simp
    show ?thesis
    proof (cases "load_factor_exceeded ?t1")
      case True
      with ins Some h w False ok obtain t2 where t2: "resize ?t1 = Inr t2" "t' = t2\<lparr>sorted_field := False\<rparr>"
        by (auto simp: insert_course_def table_ok_def Let_def split: sum.splits)
      from resize_ok[OF ok1 t2(1)] t2(2) True sz64 ex show ?thesis
        by simp
    next
      case lf: False
      with ins Some h w False ok have "t' = ?t1\<lparr>sorted_field := False\<rparr>"
        by (auto simp: insert_course_def table_ok_def Let_def)
      with lf sz64 ex show ?thesis by simp
    qed
  qed
qed

lemma load_after_doubling: "4 * s \<le> 3 * c \<Longrightarrow> 0 < c \<Longrightarrow> 4 * (s + 1) \<le> 3 * (2 * c)" for s c :: nat
  by arith

lemma insert_course_load_ok:
  assumes ok: "table_ok t" and ld: "load_ok t" and small: "capacity t < 2 ^ 52"
    and ins: "insert_course t c = Inr t'"
  shows "load_ok t'"
proof -
  from ok ld have d: "4 * (size_field t + 1) \<le> 3 * (2 * capacity t)"
    by (intro load_after_doubling) (simp_all add: load_ok_def table_ok_def)
  from insert_course_step[OF assms] consider
      "size_field t' = size_field t" "capacity t' = capacity t"
    | "size_field t' = size_field t + 1" "3 * capacity t < 4 * (size_field t + 1)" "capacity t' = 2 * capacity t"
    | "size_field t' = size_field t + 1" "\<not> 3 * capacity t < 4 * (size_field t + 1)" "capacity t' = capacity t"
    by (auto split: if_splits)
  then show ?thesis
  proof cases
    case 1
    with ld show ?thesis by (simp add: load_ok_def)
  next
    case 2
    with d show ?thesis by (simp add: load_ok_def)
  next
    case 3
    then show ?thesis by (simp add: load_ok_def)
  qed
qed

lemma insert_all_inv:
  "table_ok t0 \<Longrightarrow> load_ok t0 \<Longrightarrow> insert_all t0 cs = Inr t \<Longrightarrow> capacity t < 2 ^ 52 \<Longrightarrow>
     table_ok t \<and> load_ok t"
proof (induction cs arbitrary: t0)
  case Nil
  then show ?case by simp
next
  case (Cons c cs)
  from Cons.prems(3) obtain t1 where t1: "insert_course t0 c = Inr t1" "insert_all t1 cs = Inr t"
    by (auto split: sum.splits)
  from insert_course_ok[OF Cons.prems(1) t1(1)] have ok1: "table_ok t1" .
  from insert_all_capacity_mono[OF ok1 t1(2)] insert_course_capacity_mono[OF Cons.prems(1) t1(1)]
    Cons.prems(4)
  have small: "capacity t0 < 2 ^ 52" by simp
  from insert_course_load_ok[OF Cons.prems(1,2) small t1(1)] have "load_ok t1" .
  from Cons.IH[OF ok1 this t1(2) Cons.prems(4)] show ?case .
qed

lemma insert_course_returns:
  assumes ok: "table_ok t" and room: "2 * capacity t \<le> vector_max_size"
  shows "\<exists>t'. insert_course t c = Inr t'"
proof -
  have "insert_course t c \<noteq> Inl LengthError"
  proof (cases c)
    case None
    then show ?thesis by (simp add: insert_course_def)
  next
    case (Some x)
    from ok obtain h where h: "hash t (courseName x) = Inr h" "h < capacity t"
      using hash_ok[of t "courseName x"] by (auto simp: table_ok_def)
    obtain b chain where w: "insert_walk (courseName x) (buckets t ! h) = (b, chain)"
      by (cases "insert_walk (courseName x) (buckets t ! h)")
    let ?t1 = "t\<lparr>buckets := (buckets t)[h := x # chain], size_field := (size_field t + 1) mod 2 ^ 64\<rparr>"
    have ok1: "table_ok ?t1" using ok by (simp add: table_ok_def)
    have "resize ?t1 \<noteq> Inl LengthError"
    proof -
      let ?c = "(capacity t * 2) mod 2 ^ 64"
      from ok have lt: "capacity t * 2 < 2 ^ 64" by (simp add: table_ok_def vector_max_size_def)
      let ?t0 = "?t1\<lparr>buckets := replicate ?c [], capacity := ?c\<rparr>"
      have ok0: "table_ok ?t0" using ok room lt by (simp add: table_ok_def)
      from rehash_buckets_ok[OF ok0, of "take (capacity t) ((buckets t)[h := x # chain])"] ok room lt
      show ?thesis by (auto simp: resize_def Let_def fresh_buckets_def table_ok_def)
    qed
    with Some h w ok show ?thesis
      by (cases b) (auto simp: insert_course_def table_ok_def Let_def split: sum.splits)
  qed
  with insert_course_not_oor[OF ok, of c] show ?thesis by blast
qed

lemma new_table_load_ok: "load_ok new_table"
  by (simp add: load_ok_def new_table_def)

lemma new_table_cap_load_ok: "new_table_cap cap = Inr t \<Longrightarrow> load_ok t"
  by (auto simp: new_table_cap_def fresh_buckets_def load_ok_def Let_def split: if_splits)

subsection \<open>A course is found after its insert\<close>

lemma get_walk_finds:
  "c \<in> set chain \<Longrightarrow> \<exists>c'. get_walk (courseName c) chain = Some c' \<and> courseName c' = courseName c"
  by (induction chain) auto

lemma insert_walk_found:
  "insert_walk key chain = (True, rest) \<Longrightarrow> \<exists>n ns. rest = n # ns \<and> courseName n = key"
  by (induction chain) (auto split: if_splits)

lemma insert_walk_absent:
  "insert_walk key chain = (False, rest) \<Longrightarrow> rest = []"
  by (induction chain) (auto split: if_splits)

lemma in_entries_bucket:
  "c \<in> set (entries t) \<Longrightarrow> \<exists>i < length (buckets t). c \<in> set (buckets t ! i)"
proof -
  assume "c \<in> set (entries t)"
  then obtain b where b: "b \<in> set (buckets t)" "c \<in> set b" by (auto simp: entries_def)
  then obtain i where "i < length (buckets t)" "buckets t ! i = b" by (auto simp: in_set_conv_nth)
  with b show ?thesis by blast
qed

lemma bucket_in_entries:
  "i < length (buckets t) \<Longrightarrow> c \<in> set (buckets t ! i) \<Longrightarrow> c \<in> set (entries t)"
  by (auto simp: entries_def)

lemma hash_update_size [simp]: "hash (t\<lparr>size_field := s\<rparr>) key = hash t key"
  by (simp add: hash_def)

lemma hash_update_sorted [simp]: "hash (t\<lparr>sorted_field := b\<rparr>) key = hash t key"
  by (simp add: hash_def)

lemma get_update_sorted [simp]: "get (t\<lparr>sorted_field := b\<rparr>) name = get t name"
  by (cases "hash_loop (capacity t) 0 name") (simp_all add: get_def hash_def)

lemma insert_then_get:
  assumes ok: "table_ok t" and ins: "insert_course t (Some c) = Inr t'" and ne: "courseName c \<noteq> []"
  shows "\<exists>c'. get t' (courseName c) = Inr (Some c') \<and> courseName c' = courseName c"
proof -
  from ok obtain h where h: "hash t (courseName c) = Inr h" "h < capacity t"
    using hash_ok[of t "courseName c"] by (auto simp: table_ok_def)
  from h ok have hl: "h < length (buckets t)" by (simp add: table_ok_def)
  obtain b chain where w: "insert_walk (courseName c) (buckets t ! h) = (b, chain)"
    by (cases "insert_walk (courseName c) (buckets t ! h)")
  show ?thesis
  proof (cases b)
    case True
    with w have "insert_walk (courseName c) (buckets t ! h) = (True, chain)" by simp
    from insert_walk_found[OF this] obtain n ns where n: "chain = n # ns" "courseName n = courseName c"
      by blast
    from ins h hl w True have "t' = t\<lparr>buckets := (buckets t)[h := chain]\<rparr>"
      by (simp add: insert_course_def)
    with h hl n ne show ?thesis by (simp add: get_def)
  next
    case False
    let ?t1 = "t\<lparr>buckets := (buckets t)[h := c # chain], size_field := (size_field t + 1) mod 2 ^ 64\<rparr>"
    have ok1: "table_ok ?t1" using ok by (simp add: table_ok_def)
    have h1: "hash ?t1 (courseName c) = Inr h" using h by (simp add: hash_def)
    show ?thesis
    proof (cases "load_factor_exceeded ?t1")
      case lf: False
      with ins h hl w False have "t' = ?t1\<lparr>sorted_field := False\<rparr>"
        by (simp add: insert_course_def Let_def)
      then have "get t' (courseName c) = get ?t1 (courseName c)" by simp
      also have "\<dots> = Inr (Some c)" using h hl ne by (simp add: get_def)
      finally show ?thesis by simp
    next
      case True
      with ins h hl w False obtain t2 where t2: "resize ?t1 = Inr t2" "t' = t2\<lparr>sorted_field := False\<rparr>"
        by (auto simp: insert_course_def Let_def split: sum.splits)
      from resize_entries[OF ok1 t2(1)] have e: "mset (entries t2) = mset (entries ?t1)" "placed t2" by blast+
      from resize_ok[OF ok1 t2(1)] have ok2: "table_ok t2" by blast
      have "c \<in> set (entries ?t1)" using hl by (auto intro: bucket_in_entries[of h])
      with e(1) have "c \<in> set (entries t2)" by (metis set_mset_mset)
      then obtain i where i: "i < length (buckets t2)" "c \<in> set (buckets t2 ! i)"
        using in_entries_bucket by blast
      with e(2) have hi: "hash t2 (courseName c) = Inr i" by (auto simp: placed_def)
      from get_walk_finds[OF i(2)] hi i(1) ne t2(2) show ?thesis by (simp add: get_def)
    qed
  qed
qed

subsection \<open>Worked runs\<close>

lemma replicate18: "replicate 18 ([]::Course list) = [[],[],[],[],[],[],[],[],[],[],[],[],[],[],[],[],[],[]]"
  by (simp add: eval_nat_numeral)

lemma replicate36: "replicate 36 ([]::Course list) =
   [[],[],[],[],[],[],[],[],[],[],[],[],[],[],[],[],[],[],[],[],[],[],[],[],[],[],[],[],[],[],[],[],[],[],[],[]]"
  by (simp add: eval_nat_numeral)

lemma new_table_cap_18: "new_table_cap 18 = Inr table18"
  by (simp add: new_table_cap_def fresh_buckets_def vector_max_size_def table18_def)

lemmas eval_simps = insert_course_def remove_course_def get_def hash_def char_to_size_t_def
  load_factor_exceeded_exact example_course_def name_espan_def name_cafe_def resize_def
  fresh_buckets_def vector_max_size_def replicate18 replicate36

lemma run13: "insert_all table18 thirteen_courses = Inr table13"
  by (simp add: table18_def thirteen_courses_def table13_def eval_simps)

lemma step14: "insert_course table13 (Some (example_course name_cafe)) = Inr table14"
  by (simp add: table13_def table14_def eval_simps)

lemma get13: "get table13 name_cafe = Inr None"
  by (simp add: table13_def eval_simps)

lemma get14: "get table14 name_cafe = Inr (Some (example_course name_cafe))"
  by (simp add: table14_def eval_simps)

lemma rm14: "remove_course table14 name_cafe = Inr table14_removed"
  by (simp add: table14_def table14_removed_def eval_simps)

lemma get14rm: "get table14_removed name_cafe = Inr (Some (example_course name_cafe))"
  by (simp add: table14_removed_def eval_simps)

lemma dup14: "insert_course table14 (Some (example_course name_cafe)) = Inr table14_duplicate"
  by (simp add: table14_def table14_duplicate_def eval_simps)

lemma reachable_table18: "reachable table18"
  by (rule r_new_cap[of 18]) (simp_all add: new_table_cap_18)

lemma reachable_table13: "reachable table13"
  using reachable_insert_all[OF reachable_table18 run13] .

lemma reachable_table14: "reachable table14"
  using r_insert[OF reachable_table13 step14] .

lemma replicate_update_same: "(replicate n x)[i := x] = replicate n x"
  by (induction n arbitrary: i) (auto split: nat.splits simp: list_update_code)

lemma concat_replicate_Nil: "concat (replicate n []) = []"
  by (induction n) auto

lemma concat_update_replicate: "i < n \<Longrightarrow> concat ((replicate n [])[i := xs]) = xs"
  by (simp add: upd_conv_take_nth_drop concat_replicate_Nil)

lemmas eval1024 = insert_course_def remove_course_def get_def hash_def char_to_size_t_def
  load_factor_exceeded_exact example_course_def new_table_def
  fresh_buckets_def vector_max_size_def getSorted_def sort_courses_def inject_def inject_walk_eq
  concat_update_replicate concat_replicate_Nil entries_def replicate_update_same

subsection \<open>The size and the number of courses\<close>

lemma length_concat_update:
  "i < length bs \<Longrightarrow>
     length (concat (bs[i := xs])) + length (bs ! i) = length (concat bs) + length xs"
proof (induction bs arbitrary: i)
  case Nil
  then show ?case by simp
next
  case (Cons b bs)
  show ?case
  proof (cases i)
    case 0
    then show ?thesis by simp
  next
    case (Suc j)
    with Cons.prems have "j < length bs" by simp
    from Cons.IH[OF this] Suc show ?thesis by simp
  qed
qed

lemma insert_walk_length: "insert_walk key chain = (b, rest) \<Longrightarrow> length rest \<le> length chain"
  by (induction chain) (auto split: if_splits)

lemma insert_course_count_ok:
  assumes ok: "table_ok t" and ld: "load_ok t" and cnt: "count_ok t"
    and ins: "insert_course t c = Inr t'"
  shows "count_ok t'"
proof (cases c)
  case None
  with ins cnt show ?thesis by (simp add: insert_course_def)
next
  case (Some x)
  from ok obtain h where h: "hash t (courseName x) = Inr h" "h < capacity t"
    using hash_ok[of t "courseName x"] by (auto simp: table_ok_def)
  from h ok have hl: "h < length (buckets t)" by (simp add: table_ok_def)
  obtain b chain where w: "insert_walk (courseName x) (buckets t ! h) = (b, chain)"
    by (cases "insert_walk (courseName x) (buckets t ! h)")
  from ok ld have sz: "size_field t + 1 < 2 ^ 64"
    by (simp add: table_ok_def load_ok_def vector_max_size_def)
  show ?thesis
  proof (cases b)
    case True
    with ins Some h hl w have t': "t' = t\<lparr>buckets := (buckets t)[h := chain]\<rparr>"
      by (simp add: insert_course_def)
    from insert_walk_length[OF w] length_concat_update[OF hl, of chain] cnt t'
    show ?thesis by (simp add: count_ok_def entries_def)
  next
    case False
    with w have "insert_walk (courseName x) (buckets t ! h) = (False, chain)" by simp
    then have "chain = []" by (rule insert_walk_absent)
    let ?t1 = "t\<lparr>buckets := (buckets t)[h := x # chain], size_field := (size_field t + 1) mod 2 ^ 64\<rparr>"
    have ok1: "table_ok ?t1" using ok by (simp add: table_ok_def)
    have c1: "count_ok ?t1"
      using length_concat_update[OF hl, of "x # chain"] cnt sz \<open>chain = []\<close>
      by (simp add: count_ok_def entries_def)
    show ?thesis
    proof (cases "load_factor_exceeded ?t1")
      case True
      with ins Some h hl w False obtain t2 where t2: "resize ?t1 = Inr t2" "t' = t2\<lparr>sorted_field := False\<rparr>"
        by (auto simp: insert_course_def Let_def split: sum.splits)
      from resize_entries[OF ok1 t2(1)] have "mset (entries t2) = mset (entries ?t1)" by blast
      then have "length (entries t2) = length (entries ?t1)" by (metis size_mset)
      moreover from resize_ok[OF ok1 t2(1)] have "size_field t2 = size_field ?t1" by blast
      ultimately show ?thesis using c1 t2(2) by (simp add: count_ok_def entries_def)
    next
      case lf: False
      with ins Some h hl w False have "t' = ?t1\<lparr>sorted_field := False\<rparr>"
        by (simp add: insert_course_def Let_def)
      with c1 show ?thesis by (simp add: count_ok_def entries_def)
    qed
  qed
qed

lemma insert_all_count_ok:
  "table_ok t0 \<Longrightarrow> load_ok t0 \<Longrightarrow> count_ok t0 \<Longrightarrow> insert_all t0 cs = Inr t \<Longrightarrow>
     capacity t < 2 ^ 52 \<Longrightarrow> count_ok t"
proof (induction cs arbitrary: t0)
  case Nil
  then show ?case by simp
next
  case (Cons c cs)
  from Cons.prems(4) obtain t1 where t1: "insert_course t0 c = Inr t1" "insert_all t1 cs = Inr t"
    by (auto split: sum.splits)
  from insert_course_ok[OF Cons.prems(1) t1(1)] have ok1: "table_ok t1" .
  from insert_all_capacity_mono[OF ok1 t1(2)] insert_course_capacity_mono[OF Cons.prems(1) t1(1)]
    Cons.prems(5)
  have small: "capacity t0 < 2 ^ 52" by simp
  from insert_course_load_ok[OF Cons.prems(1,2) small t1(1)]
    insert_course_count_ok[OF Cons.prems(1,2,3) t1(1)]
  have "load_ok t1" "count_ok t1" .
  from Cons.IH[OF ok1 this t1(2) Cons.prems(5)] show ?case .
qed

lemma new_table_count_ok: "count_ok new_table"
  by (simp add: count_ok_def new_table_def entries_def concat_replicate_Nil)

lemma new_table_cap_count_ok: "new_table_cap cap = Inr t \<Longrightarrow> count_ok t"
  by (auto simp: new_table_cap_def fresh_buckets_def count_ok_def entries_def Let_def
        concat_replicate_Nil split: if_splits)

subsection \<open>The plain-pointer inject\<close>

lemma destroy_buckets_fresh: "destroy_buckets (replicate n (Chain [])) = Inr (replicate n (Chain []))"
  by (induction n) auto

lemma destroy_buckets_map:
  "Dangling \<notin> set bs \<Longrightarrow>
     destroy_buckets bs = Inr (map (\<lambda>b. if b = Chain [] then Chain [] else Dangling) bs)"
proof (induction bs)
  case Nil
  then show ?case by simp
next
  case (Cons b bs)
  then show ?case by (cases b) auto
qed

lemma no_dangling_one: "Dangling \<notin> set ((replicate n (Chain []))[i := Chain chain])"
proof
  assume "Dangling \<in> set ((replicate n (Chain []))[i := Chain chain])"
  then have "Dangling \<in> insert (Chain chain) (set (replicate n (Chain [])))"
    using set_update_subset_insert by fastforce
  then show False by auto
qed

lemmas eval_raw = inject_raw_def inject_reset_def destroy_def new_raw_table_def raw_table_one_def
  destroy_buckets_fresh destroy_buckets_map no_dangling_one vector_resize_def vector_max_size_def
  char_to_size_t_def example_course_def map_update

lemma inject_reset_capacity:
  "inject_reset t n = Inr t' \<Longrightarrow> raw_capacity t' = (if 1024 < n then (n * 2) mod 2 ^ 64 else 1024)"
  by (auto simp: inject_reset_def Let_def split: sum.splits if_splits)

lemma inject_raw_loop_capacity:
  "inject_raw_loop t cs = Inr t' \<Longrightarrow> raw_capacity t' = raw_capacity t"
  by (induction t cs rule: inject_raw_loop.induct)
     (auto split: sum.splits if_splits raw_bucket.splits)

lemma inject_raw_loop_duplicates:
  assumes "hash_loop (raw_capacity t) 0 (courseName c) = Inr i" "i < length (raw_buckets t)"
    "raw_buckets t ! i = Chain chain" "raw_walk (courseName c) chain"
  shows "inject_raw_loop t (replicate n (Some c)) = Inr t"
  using assms by (induction n) auto

lemma raw600: "inject_raw new_raw_table (replicate 600 (Some (example_course ''CSCI100''))) = Inr raw_table_one"
proof -
  have r: "replicate 600 (Some (example_course ''CSCI100'')) =
      Some (example_course ''CSCI100'') # replicate 599 (Some (example_course ''CSCI100''))"
    by (simp add: replicate_Suc[symmetric] del: replicate_Suc replicate.simps)
  have l: "inject_raw_loop raw_table_one (replicate 599 (Some (example_course ''CSCI100''))) = Inr raw_table_one"
    by (rule inject_raw_loop_duplicates[where i = 347 and chain = "[example_course ''CSCI100'']"])
       (simp_all add: raw_table_one_def char_to_size_t_def example_course_def)
  have reset: "inject_reset new_raw_table 600 = Inr new_raw_table"
    by (simp add: eval_raw)
  have step: "inject_raw_loop new_raw_table (Some (example_course ''CSCI100'') # replicate 599 (Some (example_course ''CSCI100'')))
     = inject_raw_loop raw_table_one (replicate 599 (Some (example_course ''CSCI100'')))"
    by (simp add: new_raw_table_def raw_table_one_def char_to_size_t_def example_course_def)
  show ?thesis
    unfolding inject_raw_def r using reset l step by simp
qed

lemma inject_raw_loop_returns:
  "raw_ok t \<Longrightarrow> \<exists>t'. inject_raw_loop t cs = Inr t'"
proof (induction t cs rule: inject_raw_loop.induct)
  case (1 t)
  then show ?case by simp
next
  case (2 t rest)
  then show ?case by simp
next
  case (3 t c rest)
  from "3.prems" obtain i where i: "hash_loop (raw_capacity t) 0 (courseName c) = Inr i" "i < raw_capacity t"
    using hash_loop_bound[of "raw_capacity t" 0 "courseName c"] by (auto simp: raw_ok_def)
  with "3.prems" have il: "i < length (raw_buckets t)" by (simp add: raw_ok_def)
  from il have "raw_buckets t ! i \<in> set (raw_buckets t)" by (rule nth_mem)
  with "3.prems" have "raw_buckets t ! i \<noteq> Dangling" by (auto simp: raw_ok_def)
  then obtain chain where ch: "raw_buckets t ! i = Chain chain" by (cases "raw_buckets t ! i") auto
  show ?case
  proof (cases "raw_walk (courseName c) chain")
    case True
    from "3.IH"(1)[OF i(1) il ch True "3.prems"] i il ch True show ?thesis by simp
  next
    case False
    let ?t1 = "t\<lparr>raw_buckets := (raw_buckets t)[i := Chain (c # chain)]\<rparr>"
    have "set ((raw_buckets t)[i := Chain (c # chain)]) \<subseteq> insert (Chain (c # chain)) (set (raw_buckets t))"
      by (rule set_update_subset_insert)
    with "3.prems" have "raw_ok ?t1" by (auto simp: raw_ok_def)
    from "3.IH"(2)[OF i(1) il ch False this] i il ch False show ?thesis by simp
  qed
qed

lemma inject_reset_fresh:
  assumes "2 * n \<le> vector_max_size"
  shows "\<exists>t1. inject_reset new_raw_table n = Inr t1 \<and> raw_ok t1"
proof -
  let ?c = "if n > 1024 then (n * 2) mod 2 ^ 64 else (1024::nat)"
  from assms have c: "?c \<le> vector_max_size" "0 < ?c"
    by (auto simp: vector_max_size_def)
  have d: "destroy new_raw_table = Inr new_raw_table"
    by (simp add: destroy_def new_raw_table_def destroy_buckets_fresh)
  let ?bs = "take ?c (replicate 1024 (Chain [])) @ replicate (?c - 1024) (Chain [])"
  have r: "inject_reset new_raw_table n =
      Inr (new_raw_table\<lparr>raw_capacity := ?c, raw_buckets := ?bs, raw_size := 0\<rparr>)"
    using c(1) unfolding inject_reset_def d by (simp add: vector_resize_def Let_def new_raw_table_def)
  have "set ?bs \<subseteq> {Chain []}" by (auto dest: in_set_takeD)
  then have nd: "Dangling \<notin> set ?bs" by blast
  have len: "length ?bs = ?c" by simp
  have "raw_ok (new_raw_table\<lparr>raw_capacity := ?c, raw_buckets := ?bs, raw_size := 0\<rparr>)"
    unfolding raw_ok_def using c(2) nd len by simp
  with r show ?thesis by blast
qed

lemma inject_raw_fresh_returns:
  assumes "2 * length cs \<le> vector_max_size"
  shows "\<exists>t'. inject_raw new_raw_table cs = Inr t'"
proof (cases "cs = []")
  case True
  then show ?thesis by (simp add: inject_raw_def)
next
  case False
  from inject_reset_fresh[OF assms] obtain t1 where
    t1: "inject_reset new_raw_table (length cs) = Inr t1" "raw_ok t1" by blast
  from inject_raw_loop_returns[OF t1(2), of cs] t1(1) False show ?thesis
    by (auto simp: inject_raw_def)
qed

subsection \<open>Tables that hold valid identifiers\<close>

text \<open>
  A valid identifier is seven ASCII characters, so no character of it is sign-extended, and
  below a capacity of \<open>2 ^ 58\<close> the hash never wraps around at \<open>2 ^ 64\<close>. Then the hash under
  the doubled capacity is the old hash or the old hash plus the old capacity, and \<^verbatim>\<open>resize\<close>
  never puts two courses of different old buckets into one chain.
\<close>

lemma valid_ascii:
  assumes "courseNameValidator s" "c \<in> set s"
  shows "char_to_size_t c < 128"
proof -
  from assms(1) have len: "length s = 7" and a: "\<forall>i\<in>set [0..<4]. isalpha (s ! i)"
    and d: "\<forall>i\<in>set [4..<7]. isdigit (s ! i)"
    by (auto simp: courseNameValidator_def split: if_splits)
  from assms(2) len obtain i where i: "i < 7" "s ! i = c" by (auto simp: in_set_conv_nth)
  have "isalpha c \<or> isdigit c"
  proof (cases "i < 4")
    case True
    then have "0 \<le> i \<and> i < 4" by simp
    then have "i \<in> set [0..<4]" by (simp only: set_upt atLeastLessThan_iff)
    from bspec[OF a this] i(2) show ?thesis by simp
  next
    case False
    with i(1) have "4 \<le> i \<and> i < 7" by simp
    then have "i \<in> set [4..<7]" by (simp only: set_upt atLeastLessThan_iff)
    from bspec[OF d this] i(2) show ?thesis by simp
  qed
  then have "of_char c < (128::nat)" by (auto simp: isalpha_def isdigit_def Let_def)
  then show ?thesis by (simp add: char_to_size_t_def Let_def)
qed

lemma hash_loop_double:
  assumes c: "0 < c" and small: "62 * c + 128 \<le> 2 ^ 64"
  shows "\<forall>x\<in>set key. char_to_size_t x < 128 \<Longrightarrow> h' < 2 * c \<Longrightarrow>
     hash_loop c (h' mod c) key = Inr r \<Longrightarrow> hash_loop (2 * c) h' key = Inr r' \<Longrightarrow> r' mod c = r"
proof (induction key arbitrary: h')
  case Nil
  then show ?case by simp
next
  case (Cons x xs)
  let ?a = "h' * 31 + char_to_size_t x"
  let ?b = "(h' mod c) * 31 + char_to_size_t x"
  let ?h = "?a mod (2 * c)"
  have x: "char_to_size_t x < 128" using Cons.prems(1) by simp
  have lt: "?a < 2 ^ 64" using Cons.prems(2) x small by simp
  have "h' mod c \<le> h'" by simp
  then have "?b \<le> ?a" by simp
  from this lt have lt2: "?b < 2 ^ 64" by (rule le_less_trans)
  have h2: "?h < 2 * c" using c by simp
  have "?h mod c = ?a mod c" by (simp add: mod_mod_cancel)
  also have "\<dots> = ?b mod c" by (metis mod_add_left_eq mod_mult_left_eq)
  finally have m: "?h mod c = ?b mod c" .
  from Cons.prems(3) c lt2 have "hash_loop c (?h mod c) xs = Inr r" by (simp add: m)
  moreover from Cons.prems(4) c lt have "hash_loop (2 * c) ?h xs = Inr r'" by simp
  ultimately show ?case using Cons.IH[of ?h] Cons.prems(1) h2 by simp
qed

text \<open>
  In a table with every course in the bucket of its hash, a bucket is what the filter by its
  index leaves of all courses.
\<close>

lemma filter_concat_bucket:
  fixes f :: "'a \<Rightarrow> error + nat"
  shows "(\<forall>j < length bs. \<forall>e \<in> set (bs ! j). f e = Inr j) \<Longrightarrow> i < length bs \<Longrightarrow>
     filter (\<lambda>e. f e = Inr i) (concat bs) = bs ! i"
proof (induction bs rule: rev_induct)
  case Nil
  then show ?case by simp
next
  case (snoc b bs)
  have old: "\<forall>j < length bs. \<forall>e\<in>set (bs ! j). f e = Inr j"
  proof (intro allI impI)
    fix j assume j: "j < length bs"
    then have "(bs @ [b]) ! j = bs ! j" by (simp add: nth_append)
    with snoc.prems(1) j show "\<forall>e\<in>set (bs ! j). f e = Inr j" by (metis length_append_singleton less_Suc_eq)
  qed
  have last: "\<forall>e\<in>set b. f e = Inr (length bs)"
    using snoc.prems(1) by (metis length_append_singleton lessI nth_append_length)
  show ?case
  proof (cases "i < length bs")
    case True
    have "filter (\<lambda>e. f e = Inr i) b = []" using last True by (auto simp: filter_empty_conv)
    with snoc.IH[OF old True] True show ?thesis by (simp add: nth_append)
  next
    case False
    then have i: "i = length bs" using snoc.prems(2) by simp
    have "f e \<noteq> Inr i" if "e \<in> set (concat bs)" for e
    proof -
      from that obtain ch where ch: "ch \<in> set bs" "e \<in> set ch" by auto
      from ch(1) obtain j where j: "j < length bs" "bs ! j = ch" by (auto simp: in_set_conv_nth)
      with old ch(2) have "f e = Inr j" by blast
      with j(1) i show ?thesis by simp
    qed
    then have "filter (\<lambda>e. f e = Inr i) (concat bs) = []"
      by (simp add: filter_empty_conv)
    moreover have "filter (\<lambda>e. f e = Inr i) b = b" using last i by (simp add: filter_id_conv)
    ultimately show ?thesis using i by simp
  qed
qed

lemma bucket_filter:
  "placed t \<Longrightarrow> i < length (buckets t) \<Longrightarrow>
     filter (\<lambda>e. hash t (courseName e) = Inr i) (entries t) = buckets t ! i"
  unfolding placed_def entries_def by (rule filter_concat_bucket)

lemma length_filter_mono:
  "\<forall>x\<in>set xs. P x \<longrightarrow> Q x \<Longrightarrow> length (filter P xs) \<le> length (filter Q xs)"
  by (induction xs) auto

lemma resize_single:
  assumes ok: "table_ok t" and pl: "placed t" and si: "single t" and nv: "names_valid t"
    and small: "capacity t \<le> 2 ^ 58" and rs: "resize t = Inr t'"
  shows "single t'"
proof -
  from resize_ok[OF ok rs] have ok': "table_ok t'" and cap: "capacity t' = 2 * capacity t" by auto
  from resize_entries[OF ok rs] have ms: "mset (entries t') = mset (entries t)" and pl': "placed t'"
    by auto
  from ok have c0: "0 < capacity t" and len: "length (buckets t) = capacity t"
    by (auto simp: table_ok_def)
  from small have sm: "62 * capacity t + 128 \<le> 2 ^ 64" by simp
  have "length (buckets t' ! k) \<le> 1" if k: "k < length (buckets t')" for k
  proof -
    let ?P = "\<lambda>e. hash t' (courseName e) = Inr k"
    let ?i = "k mod capacity t"
    let ?Q = "\<lambda>e. hash t (courseName e) = Inr ?i"
    have i: "?i < length (buckets t)" using c0 len by simp
    have "mset (buckets t' ! k) = filter_mset ?P (mset (entries t'))"
      using bucket_filter[OF pl' k] by (metis mset_filter)
    also have "\<dots> = mset (filter ?P (entries t))" by (simp add: ms)
    finally have "length (buckets t' ! k) = length (filter ?P (entries t))"
      by (metis size_mset)
    also have "\<dots> \<le> length (filter ?Q (entries t))"
    proof (rule length_filter_mono, intro ballI impI)
      fix e assume e: "e \<in> set (entries t)" and p: "hash t' (courseName e) = Inr k"
      from nv e have "courseNameValidator (courseName e)" by (simp add: names_valid_def)
      then have asc: "\<forall>x\<in>set (courseName e). char_to_size_t x < 128" using valid_ascii by blast
      from hash_ok[OF c0, of "courseName e"] obtain r where r: "hash t (courseName e) = Inr r" by blast
      from hash_loop_double[OF c0 sm asc, of 0 r k] r p cap c0 show "hash t (courseName e) = Inr ?i"
        by (simp add: hash_def)
    qed
    also have "\<dots> = length (buckets t ! ?i)" using bucket_filter[OF pl i] by simp
    also have "\<dots> \<le> 1" using si i by (simp add: single_def)
    finally show ?thesis .
  qed
  then show ?thesis by (auto simp: single_def in_set_conv_nth)
qed

text \<open>
  Every operation keeps the invariant: the walks of the unique_ptr edition only shorten a
  chain, and a new node is put in front of what the walk has left, which is nothing.
\<close>

lemma valid_table_cong:
  "buckets t' = buckets t \<Longrightarrow> capacity t' = capacity t \<Longrightarrow> valid_table t' = valid_table t"
  by (simp add: valid_table_def table_ok_def placed_def single_def names_valid_def entries_def hash_def)

lemma valid_update:
  assumes v: "valid_table t" and h: "h < capacity t" and l: "length new \<le> 1"
    and n: "\<forall>e\<in>set new. hash t (courseName e) = Inr h \<and> courseNameValidator (courseName e)"
  shows "valid_table (t\<lparr>buckets := (buckets t)[h := new]\<rparr>)"
proof -
  let ?t = "t\<lparr>buckets := (buckets t)[h := new]\<rparr>"
  from v have ok: "table_ok t" and pl: "placed t" and si: "single t" and nv: "names_valid t"
    by (auto simp: valid_table_def)
  have ok': "table_ok ?t" using ok by (simp add: table_ok_def)
  have pl': "placed ?t"
    unfolding placed_def
  proof (intro allI impI ballI)
    fix i e assume i: "i < length (buckets ?t)" and e: "e \<in> set (buckets ?t ! i)"
    show "hash ?t (courseName e) = Inr i"
    proof (cases "i = h")
      case True
      with i e n show ?thesis by simp
    next
      case False
      with i e pl show ?thesis by (simp add: placed_def)
    qed
  qed
  have si': "single ?t"
    using si l set_update_subset_insert[of "buckets t" h new] by (auto simp: single_def)
  have nv': "names_valid ?t"
    unfolding names_valid_def entries_def
  proof
    fix e assume "e \<in> set (concat (buckets ?t))"
    then obtain ch where ch: "ch \<in> set ((buckets t)[h := new])" "e \<in> set ch" by auto
    from ch(1) set_update_subset_insert[of "buckets t" h new] have "ch = new \<or> ch \<in> set (buckets t)"
      by auto
    then show "courseNameValidator (courseName e)"
    proof
      assume "ch = new" with ch n show ?thesis by simp
    next
      assume "ch \<in> set (buckets t)"
      with ch have "e \<in> set (entries t)" by (auto simp: entries_def)
      with nv show ?thesis by (simp add: names_valid_def)
    qed
  qed
  from ok' pl' si' nv' show ?thesis by (simp add: valid_table_def)
qed

lemma valid_bucket:
  assumes "valid_table t" "i < capacity t" "e \<in> set (buckets t ! i)"
  shows "hash t (courseName e) = Inr i \<and> courseNameValidator (courseName e) \<and> buckets t ! i = [e]"
proof -
  from assms(1) have ok: "table_ok t" and pl: "placed t" and si: "single t" and nv: "names_valid t"
    by (auto simp: valid_table_def)
  from ok assms(2) have i: "i < length (buckets t)" by (simp add: table_ok_def)
  from pl i assms(3) have "hash t (courseName e) = Inr i" by (simp add: placed_def)
  moreover from bucket_in_entries[OF i assms(3)] nv have "courseNameValidator (courseName e)"
    by (simp add: names_valid_def)
  moreover from si i have "length (buckets t ! i) \<le> 1" by (simp add: single_def)
  with assms(3) have "buckets t ! i = [e]" by (cases "buckets t ! i") auto
  ultimately show ?thesis by blast
qed

lemma insert_walk_sub:
  "insert_walk key ch = (b, r) \<Longrightarrow> set r \<subseteq> set ch \<and> length r \<le> length ch"
  by (induction ch) (auto split: if_splits)

lemma remove_walk_sub:
  "remove_walk name p ch = (b, r) \<Longrightarrow> set r \<subseteq> set ch \<and> length r \<le> length ch"
proof (induction ch arbitrary: p)
  case Nil
  then show ?case by simp
next
  case (Cons a ch)
  show ?case
  proof (cases "courseName a = name")
    case True
    with Cons.prems show ?thesis by (auto split: if_splits)
  next
    case False
    with Cons.prems have "remove_walk name True ch = (b, r)" by simp
    from Cons.IH[OF this] show ?thesis by auto
  qed
qed

lemma resize_valid:
  assumes v: "valid_table t" and small: "capacity t \<le> 2 ^ 58" and rs: "resize t = Inr t'"
  shows "valid_table t'"
proof -
  from v have ok: "table_ok t" and pl: "placed t" and si: "single t" and nv: "names_valid t"
    by (auto simp: valid_table_def)
  from resize_ok[OF ok rs] have "table_ok t'" by simp
  moreover from resize_entries[OF ok rs] have ms: "mset (entries t') = mset (entries t)" and "placed t'"
    by auto
  moreover from resize_single[OF ok pl si nv small rs] have "single t'" .
  moreover from ms have "set (entries t') = set (entries t)" by (rule mset_eq_setD)
  with nv have "names_valid t'" by (simp add: names_valid_def)
  ultimately show ?thesis by (simp add: valid_table_def)
qed

lemma insert_course_valid:
  assumes v: "valid_table t" and nm: "courseNameValidator (courseName c)"
    and small: "capacity t' \<le> 2 ^ 59" and ins: "insert_course t (Some c) = Inr t'"
  shows "valid_table t'"
proof -
  from v have ok: "table_ok t" by (simp add: valid_table_def)
  from ok obtain h where h: "hash t (courseName c) = Inr h" "h < capacity t"
    using hash_ok[of t "courseName c"] by (auto simp: table_ok_def)
  from ok h have hl: "h < length (buckets t)" by (simp add: table_ok_def)
  obtain b chain where w: "insert_walk (courseName c) (buckets t ! h) = (b, chain)"
    by (cases "insert_walk (courseName c) (buckets t ! h)")
  from insert_walk_sub[OF w] have sub: "set chain \<subseteq> set (buckets t ! h)"
    "length chain \<le> length (buckets t ! h)" by auto
  from v hl have l1: "length (buckets t ! h) \<le> 1" by (simp add: valid_table_def single_def)
  show ?thesis
  proof (cases b)
    case True
    have "valid_table (t\<lparr>buckets := (buckets t)[h := chain]\<rparr>)"
      using valid_update[OF v h(2), of chain] sub l1 valid_bucket[OF v h(2)] by auto
    with ins h hl w True show ?thesis by (simp add: insert_course_def)
  next
    case False
    with w have "insert_walk (courseName c) (buckets t ! h) = (False, chain)" by simp
    then have e: "chain = []" by (rule insert_walk_absent)
    let ?t0 = "t\<lparr>buckets := (buckets t)[h := [c]]\<rparr>"
    let ?t1 = "t\<lparr>buckets := (buckets t)[h := c # chain], size_field := (size_field t + 1) mod 2 ^ 64\<rparr>"
    have v0: "valid_table ?t0" using valid_update[OF v h(2), of "[c]"] h nm by simp
    have v1: "valid_table ?t1" using valid_table_cong[of ?t1 ?t0] v0 e by simp
    show ?thesis
    proof (cases "load_factor_exceeded ?t1")
      case True
      with ins h hl w False obtain t2 where t2: "resize ?t1 = Inr t2" "t' = t2\<lparr>sorted_field := False\<rparr>"
        by (auto simp: insert_course_def Let_def split: sum.splits)
      from v1 have ok1: "table_ok ?t1" by (simp add: valid_table_def)
      from resize_ok[OF ok1 t2(1)] t2(2) small have "capacity ?t1 \<le> 2 ^ 58" by simp
      from resize_valid[OF v1 this t2(1)] have "valid_table t2" .
      with t2(2) valid_table_cong[of t' t2] show ?thesis by simp
    next
      case lf: False
      with ins h hl w False have "t' = ?t1\<lparr>sorted_field := False\<rparr>"
        by (auto simp: insert_course_def Let_def)
      with v1 valid_table_cong[of t' ?t1] show ?thesis by simp
    qed
  qed
qed

lemma remove_course_valid:
  assumes v: "valid_table t" and rm: "remove_course t name = Inr t'"
  shows "valid_table t' \<and> capacity t' = capacity t"
proof (cases "name = []")
  case True
  with rm v show ?thesis by (simp add: remove_course_def)
next
  case ne: False
  from v have ok: "table_ok t" by (simp add: valid_table_def)
  from ok obtain h where h: "hash t name = Inr h" "h < capacity t"
    using hash_ok[of t name] by (auto simp: table_ok_def)
  from ok h have hl: "h < length (buckets t)" by (simp add: table_ok_def)
  obtain b chain where w: "remove_walk name False (buckets t ! h) = (b, chain)"
    by (cases "remove_walk name False (buckets t ! h)")
  from remove_walk_sub[OF w] have sub: "set chain \<subseteq> set (buckets t ! h)"
    "length chain \<le> length (buckets t ! h)" by auto
  from v hl have l1: "length (buckets t ! h) \<le> 1" by (simp add: valid_table_def single_def)
  let ?t0 = "t\<lparr>buckets := (buckets t)[h := chain]\<rparr>"
  have v0: "valid_table ?t0"
    using valid_update[OF v h(2), of chain] sub l1 valid_bucket[OF v h(2)] by auto
  from rm ne h hl w have "buckets t' = buckets ?t0 \<and> capacity t' = capacity ?t0"
    by (cases b) (auto simp: remove_course_def)
  with v0 valid_table_cong[of t' ?t0] show ?thesis by simp
qed

lemma inject_loop_valid:
  "valid_table t \<Longrightarrow> \<forall>c. Some c \<in> set cs \<longrightarrow> courseNameValidator (courseName c) \<Longrightarrow>
     inject_loop t cs = Some (Inr t') \<Longrightarrow> valid_table t'"
proof (induction t cs rule: inject_loop.induct)
  case (1 t)
  then show ?case by simp
next
  case (2 t rest)
  then show ?case by simp
next
  case (3 t c rest)
  from "3.prems"(1) have ok: "table_ok t" by (simp add: valid_table_def)
  from ok obtain h where h: "hash t (courseName c) = Inr h" "h < capacity t"
    using hash_ok[of t "courseName c"] by (auto simp: table_ok_def)
  from ok h have hl: "h < length (buckets t)" by (simp add: table_ok_def)
  from "3.prems"(3) h hl obtain chain where
    w: "inject_walk (courseName c) (buckets t ! h) = Some chain"
    and r: "inject_loop (t\<lparr>buckets := (buckets t)[h := c # chain]\<rparr>) rest = Some (Inr t')"
    by (auto split: option.splits)
  from w have e: "chain = []" by (simp add: inject_walk_eq split: if_splits)
  have "valid_table (t\<lparr>buckets := (buckets t)[h := c # chain]\<rparr>)"
    using valid_update[OF "3.prems"(1) h(2), of "[c]"] h "3.prems"(2) e by simp
  from "3.IH"[OF h(1) hl w this _ r] "3.prems"(2) show ?case by simp
qed

lemma empty_valid:
  "table_ok t \<Longrightarrow> buckets t = replicate n [] \<Longrightarrow> valid_table t"
  by (auto simp: valid_table_def placed_def single_def names_valid_def entries_def)

lemma inject_valid:
  assumes v: "valid_table t" and nm: "\<forall>c. Some c \<in> set cs \<longrightarrow> courseNameValidator (courseName c)"
    and inj: "inject t cs = Some (Inr t')"
  shows "valid_table t'"
proof (cases "cs = []")
  case True
  with inj v show ?thesis by (simp add: inject_def)
next
  case False
  from v have ok: "table_ok t" by (simp add: valid_table_def)
  then have fb: "fresh_buckets (capacity t) = Inr (replicate (capacity t) [])"
    by (simp add: fresh_buckets_def table_ok_def)
  let ?t0 = "t\<lparr>buckets := replicate (capacity t) [], size_field := 0\<rparr>"
  from inj False fb obtain t1 where t1: "inject_loop ?t0 cs = Some (Inr t1)" "t' = t1\<lparr>sorted_field := False\<rparr>"
    by (auto simp: inject_def split: option.splits sum.splits)
  have "table_ok ?t0" using ok by (simp add: table_ok_def)
  then have "valid_table ?t0" by (rule empty_valid) simp
  from inject_loop_valid[OF this nm t1(1)] have "valid_table t1" .
  with t1(2) valid_table_cong[of t' t1] show ?thesis by simp
qed

lemma reachable_valid_reachable: "reachable_valid t \<Longrightarrow> reachable t"
  by (induction rule: reachable_valid.induct) (auto intro: reachable.intros)

lemma new_table_valid: "valid_table new_table"
  by (rule empty_valid[OF new_table_ok]) (simp add: new_table_def)

lemma new_table_cap_valid: "cap < 2 ^ 64 \<Longrightarrow> new_table_cap cap = Inr t \<Longrightarrow> valid_table t"
  using new_table_cap_ok[of cap t]
  by (auto simp: new_table_cap_def fresh_buckets_def Let_def split: if_splits intro: empty_valid)

lemma reachable_valid_inv:
  "reachable_valid t \<Longrightarrow> capacity t \<le> 2 ^ 59 \<Longrightarrow> valid_table t"
proof (induction rule: reachable_valid.induct)
  case v_new
  show ?case by (rule new_table_valid)
next
  case (v_new_cap cap t)
  then show ?case using new_table_cap_valid by blast
next
  case (v_insert t c t')
  from reachable_ok[OF reachable_valid_reachable[OF v_insert.hyps(1)]] have ok: "table_ok t" .
  from insert_course_capacity_mono[OF ok v_insert.hyps(3)] v_insert.prems
  have "capacity t \<le> 2 ^ 59" by simp
  from insert_course_valid[OF v_insert.IH[OF this] v_insert.hyps(2) v_insert.prems v_insert.hyps(3)]
  show ?case .
next
  case (v_insert_null t t')
  then show ?case by (simp add: insert_course_def)
next
  case (v_remove t name t')
  from reachable_ok[OF reachable_valid_reachable[OF v_remove.hyps(1)]] have ok: "table_ok t" .
  obtain t'' where "remove_course t name = Inr t''" using remove_course_total[OF ok] by blast
  have "capacity t' = capacity t"
    using v_remove.hyps(2) by (auto simp: remove_course_def split: if_splits sum.splits prod.splits bool.splits)
  with v_remove.prems have "capacity t \<le> 2 ^ 59" by simp
  from remove_course_valid[OF v_remove.IH[OF this] v_remove.hyps(2)] show ?case by simp
next
  case (v_inject t newCourses t')
  from reachable_ok[OF reachable_valid_reachable[OF v_inject.hyps(1)]] have ok: "table_ok t" .
  from inject_ok[OF ok v_inject.hyps(3)] v_inject.prems have "capacity t \<le> 2 ^ 59" by simp
  from inject_valid[OF v_inject.IH[OF this] v_inject.hyps(2,3)] show ?case .
next
  case (v_resize t t')
  from reachable_ok[OF reachable_valid_reachable[OF v_resize.hyps(1)]] have ok: "table_ok t" .
  from resize_ok[OF ok v_resize.hyps(2)] v_resize.prems have c: "capacity t \<le> 2 ^ 58" by simp
  then have "capacity t \<le> 2 ^ 59" by simp
  from resize_valid[OF v_resize.IH[OF this] c v_resize.hyps(2)] show ?case .
next
  case (v_sort t t')
  from v_sort.hyps(2) have e: "buckets t' = buckets t" "capacity t' = capacity t"
    by (auto simp: sort_courses_def split: if_splits)
  with v_sort.prems v_sort.IH valid_table_cong[OF e] show ?case by simp
next
  case (v_getSorted t t' cs)
  from v_getSorted.hyps(2) have e: "buckets t' = buckets t" "capacity t' = capacity t"
    by (auto simp: getSorted_def sort_courses_def split: if_splits sum.splits)
  with v_getSorted.prems v_getSorted.IH valid_table_cong[OF e] show ?case by simp
qed

text \<open>
  On such a table a course whose name is present is rejected and the table stays as it is,
  and a name is gone after its \<^verbatim>\<open>remove\<close>.
\<close>

lemma insert_present_valid:
  assumes v: "valid_table t" and e: "c' \<in> set (entries t)" and n: "courseName c = courseName c'"
  shows "insert_course t (Some c) = Inr t \<and> get t (courseName c) = Inr (Some c')"
proof -
  from v have ok: "table_ok t" by (simp add: valid_table_def)
  from in_entries_bucket[OF e] obtain i where i: "i < length (buckets t)" "c' \<in> set (buckets t ! i)"
    by blast
  from ok i have ic: "i < capacity t" by (simp add: table_ok_def)
  from valid_bucket[OF v ic i(2)] have h: "hash t (courseName c') = Inr i"
    and nm: "courseNameValidator (courseName c')" and b: "buckets t ! i = [c']" by auto
  from nm have ne: "courseName c' \<noteq> []" by (auto simp: courseNameValidator_def)
  have "(buckets t)[i := [c']] = buckets t" using b i by (metis list_update_id)
  then have "t\<lparr>buckets := (buckets t)[i := [c']]\<rparr> = t" by simp
  with h i b n ne show ?thesis by (simp add: insert_course_def get_def)
qed

lemma remove_then_get_valid:
  assumes v: "valid_table t" and rm: "remove_course t name = Inr t'"
  shows "get t' name = Inr None"
proof (cases "name = []")
  case True
  then show ?thesis by (simp add: get_def)
next
  case ne: False
  from v have ok: "table_ok t" by (simp add: valid_table_def)
  from ok obtain h where h: "hash t name = Inr h" "h < capacity t"
    using hash_ok[of t name] by (auto simp: table_ok_def)
  from ok h have hl: "h < length (buckets t)" by (simp add: table_ok_def)
  from v hl have l1: "length (buckets t ! h) \<le> 1" by (simp add: valid_table_def single_def)
  then have w: "snd (remove_walk name False (buckets t ! h)) = []"
    by (cases "buckets t ! h") auto
  obtain b chain where bc: "remove_walk name False (buckets t ! h) = (b, chain)"
    by (cases "remove_walk name False (buckets t ! h)")
  with w have "chain = []" by simp
  with rm ne h hl bc show ?thesis
    by (cases b) (auto simp: remove_course_def get_def hash_def)
qed

lemma ins_one: "insert_course new_table (Some (example_course ''CSCI100'')) = Inr table_one"
  by (simp add: table_one_def eval1024)

lemma reachable_valid_table_one: "reachable_valid table_one"
proof (rule v_insert[OF v_new _ ins_one])
  have "courseNameValidator ''CSCI100''" by code_simp
  then show "courseNameValidator (courseName (example_course ''CSCI100''))"
    by (simp add: example_course_def)
qed

text \<open>
  What the walk of \<^verbatim>\<open>insert\<close> costs on such a table: a course with another name in the bucket
  of the new one is destroyed, and the size counts both.
\<close>

lemma insert_drops_colliding_course:
  "insert_course table_one (Some (example_course ''CSCI221'')) = Inr table_collision
   \<and> entries table_collision = [example_course ''CSCI221'']
   \<and> size_field table_collision = 2
   \<and> get table_collision ''CSCI100'' = Inr None"
proof (intro conjI)
  show "insert_course table_one (Some (example_course ''CSCI221'')) = Inr table_collision"
    by (simp add: table_one_def table_collision_def eval1024)
  show "entries table_collision = [example_course ''CSCI221'']"
    by (simp add: table_collision_def eval1024)
  show "size_field table_collision = 2" by (simp add: table_collision_def)
  show "get table_collision ''CSCI100'' = Inr None"
    by (simp add: table_collision_def eval1024)
qed

subsection \<open>The plain-pointer table\<close>

text \<open>The worked run on \<^verbatim>\<open>DataStructure(16)\<close>.\<close>

lemma replicate16: "replicate 16 x = [x,x,x,x,x,x,x,x,x,x,x,x,x,x,x,x]"
  by (simp add: numeral_eq_Suc)

lemma ptr_new16: "ptr_new_table_cap 16 = Inr ptr_table16"
  by (simp add: ptr_new_table_cap_def vector_resize_def vector_max_size_def ptr_table16_def)

lemmas eval_ptr =
  ptr_insert_def ptr_insert_walk.simps ptr_get_def ptr_get_walk.simps ptr_remove_def
  ptr_remove_walk.simps ptr_resize_def ptr_rehash_chain.simps node_at_def vector_resize_def
  vector_max_size_def char_to_size_t_def example_course_def replicate16 load_exceeded_exact

lemma ptr_run12: "ptr_insert_all ptr_table16 twelve_courses = Some (Inr ptr_table12)"
  by (simp add: ptr_table16_def twelve_courses_def ptr_table12_def replicate16 eval_ptr)

lemma ptr_step13: "ptr_insert ptr_table12 (Some (example_course ''CSCI116'')) = Some (Inr ptr_table13)"
  by (simp add: ptr_table12_def ptr_table13_def eval_ptr)

lemma ptr_get12: "ptr_get ptr_table12 ''CSCI116'' = Some (Inr None)"
  by (simp add: ptr_table12_def eval_ptr)

lemma ptr_get13: "ptr_get ptr_table13 ''CSCI116'' = Some (Inr (Some (example_course ''CSCI116'')))"
  by (simp add: ptr_table13_def eval_ptr)

lemma ptr_rm13: "ptr_remove ptr_table13 ''CSCI116'' = Some (Inr ptr_table13_removed)"
  by (simp add: ptr_table13_def ptr_table13_removed_def eval_ptr)

lemma ptr_get13r: "ptr_get ptr_table13_removed ''CSCI116'' = Some (Inl UseAfterFree)"
  by (simp add: ptr_table13_removed_def eval_ptr)

lemma example_names_valid:
  "list_all courseNameValidator
     [''CSCI100'', ''CSCI101'', ''CSCI102'', ''CSCI103'', ''CSCI104'', ''CSCI105'', ''CSCI106'',
      ''CSCI107'', ''CSCI108'', ''CSCI109'', ''CSCI110'', ''CSCI111'', ''CSCI116'', ''CSCI127'']"
  by code_simp

lemma twelve_valid:
  "list_all (\<lambda>c. case c of None \<Rightarrow> False | Some x \<Rightarrow> courseNameValidator (courseName x))
     (twelve_courses @ [Some (example_course ''CSCI116''), Some (example_course ''CSCI127'')])"
  using example_names_valid by (simp add: twelve_courses_def example_course_def)

text \<open>
  A walk that comes to a node which points to itself and does not carry the name never
  returns.
\<close>

lemma ptr_insert_walk_returns:
  assumes "ptr_insert_walk h key cur = Some r"
  shows "\<not> (\<exists>a n. cur = Some a \<and> node_at h a = Some n \<and> nodeNext n = Some a
            \<and> courseName (nodeCourse n) \<noteq> key)"
proof (rule ptr_insert_walk.raw_induct[where P = "\<lambda>h key cur r.
    \<not> (\<exists>a n. cur = Some a \<and> node_at h a = Some n \<and> nodeNext n = Some a
            \<and> courseName (nodeCourse n) \<noteq> key)", OF _ assms])
  fix f h key cur r
  assume IH: "\<And>h key cur r. f h key cur = Some r \<Longrightarrow>
      \<not> (\<exists>a n. cur = Some a \<and> node_at h a = Some n \<and> nodeNext n = Some a
            \<and> courseName (nodeCourse n) \<noteq> key)"
    and step: "(case cur of None \<Rightarrow> Some (Inr False)
         | Some a \<Rightarrow>
             (case node_at h a of None \<Rightarrow> Some (Inl UseAfterFree)
              | Some n \<Rightarrow>
                  if courseName (nodeCourse n) = key then Some (Inr True)
                  else f h key (nodeNext n))) = Some r"
  show "\<not> (\<exists>a n. cur = Some a \<and> node_at h a = Some n \<and> nodeNext n = Some a
            \<and> courseName (nodeCourse n) \<noteq> key)"
  proof
    assume "\<exists>a n. cur = Some a \<and> node_at h a = Some n \<and> nodeNext n = Some a
            \<and> courseName (nodeCourse n) \<noteq> key"
    then obtain a n where l: "cur = Some a" "node_at h a = Some n" "nodeNext n = Some a"
      "courseName (nodeCourse n) \<noteq> key" by blast
    with step have "f h key cur = Some r" by simp
    from IH[OF this] l show False by blast
  qed
qed

lemma ptr_insert_walk_loops:
  "node_at h a = Some n \<Longrightarrow> nodeNext n = Some a \<Longrightarrow> courseName (nodeCourse n) \<noteq> key \<Longrightarrow>
     ptr_insert_walk h key (Some a) = None"
  using ptr_insert_walk_returns[of h key "Some a"] by (cases "ptr_insert_walk h key (Some a)") auto

text \<open>
  The walk of \<^verbatim>\<open>insert\<close> finds a duplicate wherever the walk of \<^verbatim>\<open>get\<close> finds the course, so
  \<^verbatim>\<open>insert\<close> of a name that \<^verbatim>\<open>get\<close> finds returns with the table as it was.
\<close>

lemma ptr_get_insert_walk:
  assumes "ptr_get_walk h key cur = Some r"
  shows "ptr_insert_walk h key cur = Some (map_sum id (\<lambda>c. c \<noteq> None) r)"
proof (rule ptr_get_walk.raw_induct[where P = "\<lambda>h key cur r.
    ptr_insert_walk h key cur = Some (map_sum id (\<lambda>c. c \<noteq> None) r)", OF _ assms])
  fix f h key cur r
  assume IH: "\<And>h key cur r. f h key cur = Some r \<Longrightarrow>
      ptr_insert_walk h key cur = Some (map_sum id (\<lambda>c. c \<noteq> None) r)"
    and step: "(case cur of None \<Rightarrow> Some (Inr None)
         | Some a \<Rightarrow>
             (case node_at h a of None \<Rightarrow> Some (Inl UseAfterFree)
              | Some n \<Rightarrow>
                  if courseName (nodeCourse n) = key then Some (Inr (Some (nodeCourse n)))
                  else f h key (nodeNext n))) = Some r"
  show "ptr_insert_walk h key cur = Some (map_sum id (\<lambda>c. c \<noteq> None) r)"
  proof (cases cur)
    case None
    with step show ?thesis by (subst ptr_insert_walk.simps) auto
  next
    case (Some a)
    show ?thesis
    proof (cases "node_at h a")
      case None
      with step Some show ?thesis by (subst ptr_insert_walk.simps) auto
    next
      case n: (Some n)
      show ?thesis
      proof (cases "courseName (nodeCourse n) = key")
        case True
        with step Some n show ?thesis by (subst ptr_insert_walk.simps) auto
      next
        case False
        with step Some n have "f h key (nodeNext n) = Some r" by simp
        from IH[OF this] False Some n show ?thesis by (subst ptr_insert_walk.simps) simp
      qed
    qed
  qed
qed

lemma ptr_insert_present:
  assumes "ptr_get u (courseName c) = Some (Inr (Some c'))"
  shows "ptr_insert u (Some c) = Some (Inr u)"
proof -
  from assms obtain index where i: "hash_loop (ptr_capacity u) 0 (courseName c) = Inr index"
      "index < length (ptr_buckets u)"
      "ptr_get_walk (ptr_heap u) (courseName c) (ptr_buckets u ! index) = Some (Inr (Some c'))"
    by (auto simp: ptr_get_def split: if_splits sum.splits)
  from ptr_get_insert_walk[OF i(3)] i(1,2) show ?thesis by (simp add: ptr_insert_def)
qed

text \<open>
  In \<open>ptr_table13\<close> the bucket of \<^verbatim>\<open>CSCI127\<close> starts at \<^verbatim>\<open>CSCI105\<close>, whose next node is
  \<^verbatim>\<open>CSCI116\<close>, which points to itself.
\<close>

lemma hash127: "hash_loop 32 0 ''CSCI127'' = Inr 0"
  by (simp add: char_to_size_t_def)

lemma walk127: "ptr_insert_walk (ptr_heap ptr_table13) ''CSCI127'' (Some 5) = None"
proof -
  have "ptr_insert_walk (ptr_heap ptr_table13) ''CSCI127'' (Some 5)
      = ptr_insert_walk (ptr_heap ptr_table13) ''CSCI127'' (Some 12)"
    by (subst ptr_insert_walk.simps) (simp add: ptr_table13_def node_at_def example_course_def)
  also have "\<dots> = None"
    by (rule ptr_insert_walk_loops[where n = "\<lparr>nodeCourse = example_course ''CSCI116'', nodeNext = Some 12\<rparr>"])
       (simp_all add: ptr_table13_def node_at_def example_course_def)
  finally show ?thesis .
qed

lemma ptr_insert_diverges:
  "hash_loop (ptr_capacity t) 0 (courseName c) = Inr index \<Longrightarrow> index < length (ptr_buckets t) \<Longrightarrow>
   ptr_insert_walk (ptr_heap t) (courseName c) (ptr_buckets t ! index) = None \<Longrightarrow>
   ptr_insert t (Some c) = None"
  by (simp add: ptr_insert_def)

lemma ptr_insert127: "ptr_insert ptr_table13 (Some (example_course ''CSCI127'')) = None"
proof (rule ptr_insert_diverges[where index = 0])
  show "hash_loop (ptr_capacity ptr_table13) 0 (courseName (example_course ''CSCI127'')) = Inr 0"
    by (simp add: ptr_table13_def example_course_def char_to_size_t_def)
  show "0 < length (ptr_buckets ptr_table13)" by (simp add: ptr_table13_def)
  have "ptr_buckets ptr_table13 ! 0 = Some 5" by (simp add: ptr_table13_def)
  moreover have "courseName (example_course ''CSCI127'') = ''CSCI127''" by (simp add: example_course_def)
  ultimately show "ptr_insert_walk (ptr_heap ptr_table13) (courseName (example_course ''CSCI127''))
     (ptr_buckets ptr_table13 ! 0) = None"
    using walk127 by (simp only:)
qed

lemma ptr_get100:
  "ptr_get ptr_table12 (courseName (same_name_course ''CSCI100'')) = Some (Inr (Some (example_course ''CSCI100'')))"
  by (simp add: ptr_table12_def same_name_course_def eval_ptr)

subsection \<open>The claims about the table\<close>

text \<open>
  C10. At every reachable table and for every key, the empty one included, \<^verbatim>\<open>hash\<close> returns an
  index below the capacity, and the capacity is the length of the bucket array. So the
  bucket accesses of \<^verbatim>\<open>insert\<close>, \<^verbatim>\<open>remove\<close> and \<^verbatim>\<open>get\<close> stay inside the array: \<^verbatim>\<open>remove\<close> and
  \<^verbatim>\<open>get\<close> always return, and \<^verbatim>\<open>insert\<close> never ends in an out-of-range access or a division by
  zero.
\<close>

theorem hash_in_bounds:
  assumes "reachable t"
  shows "(\<exists>h. hash t key = Inr h \<and> h < capacity t \<and> h < length (buckets t))
     \<and> insert_course t c \<noteq> Inl OutOfRange \<and> insert_course t c \<noteq> Inl DivideByZero
     \<and> (\<exists>t'. remove_course t key = Inr t')
     \<and> (\<exists>r. get t key = Inr r)"
proof -
  from assms have ok: "table_ok t" by (rule reachable_ok)
  then have "\<exists>h. hash t key = Inr h \<and> h < capacity t \<and> h < length (buckets t)"
    using hash_ok[of t key] by (auto simp: table_ok_def)
  moreover from insert_course_not_oor[OF ok, of c]
  have "insert_course t c \<noteq> Inl OutOfRange \<and> insert_course t c \<noteq> Inl DivideByZero" by auto
  ultimately show ?thesis using remove_course_total[OF ok, of key] get_total[OF ok, of key] by blast
qed

theorem hash_in_bounds_witness:
  "reachable table14
   \<and> (\<exists>h. hash table14 [] = Inr h \<and> h < capacity table14 \<and> h < length (buckets table14))
   \<and> (\<exists>h. hash table14 name_cafe = Inr h \<and> h < capacity table14 \<and> h < length (buckets table14))
   \<and> insert_course table14 None \<noteq> Inl OutOfRange"
  using hash_in_bounds[OF reachable_table14, of "[]" None]
    hash_in_bounds[OF reachable_table14, of name_cafe None] reachable_table14
  by blast

text \<open>
  \<^verbatim>\<open>insert\<close> of the unique_ptr edition and the load factor. Start from a table a constructor
  made and run any sequence of \<^verbatim>\<open>insert\<close> calls that return, up to a capacity below \<open>2 ^ 52\<close>,
  where the comparison of doubles is exact. Then the load factor is at most 0.75
  (\<open>4 * size \<le> 3 * capacity\<close>), and the table holds no more courses than \<^verbatim>\<open>size\<close> counts. A
  further \<^verbatim>\<open>insert\<close> either rejects its argument and leaves size and capacity alone, or counts
  the size up by one and doubles the capacity exactly when the new size would exceed three
  quarters of the old capacity; it returns whenever the doubled array can be allocated.
  \<^verbatim>\<open>resize\<close> doubles the capacity, keeps the courses of the table as a multiset and leaves
  each of them in the bucket of its hash under the new capacity.
\<close>

lemma insert_load_factor:
  assumes fresh: "t0 = new_table \<or> (cap < 2 ^ 64 \<and> new_table_cap cap = Inr t0)"
    and run: "insert_all t0 cs = Inr t"
    and small: "capacity t < 2 ^ 52"
  shows "4 * size_field t \<le> 3 * capacity t
    \<and> length (entries t) \<le> size_field t
    \<and> (\<forall>c t'. insert_course t c = Inr t' \<longrightarrow>
          (size_field t' = size_field t \<and> capacity t' = capacity t)
          \<or> (size_field t' = size_field t + 1
              \<and> capacity t' = (if 3 * capacity t < 4 * (size_field t + 1)
                               then 2 * capacity t else capacity t)))
    \<and> (\<forall>c. 2 * capacity t \<le> vector_max_size \<longrightarrow> (\<exists>t'. insert_course t c = Inr t'))
    \<and> (\<forall>u u'. table_ok u \<and> resize u = Inr u' \<longrightarrow>
          capacity u' = 2 * capacity u \<and> mset (entries u') = mset (entries u)
          \<and> (\<forall>i < length (buckets u'). \<forall>e \<in> set (buckets u' ! i).
                hash u' (courseName e) = Inr i))"
proof -
  from fresh have t0: "table_ok t0 \<and> load_ok t0"
    using new_table_ok new_table_load_ok new_table_cap_ok new_table_cap_load_ok by blast
  from fresh have c0: "count_ok t0"
    using new_table_count_ok new_table_cap_count_ok by blast
  from t0 insert_all_inv[OF _ _ run small] have inv: "table_ok t" "load_ok t" by blast+
  from t0 c0 insert_all_count_ok[OF _ _ _ run small] have "count_ok t" by blast
  then have a': "length (entries t) \<le> size_field t" by (simp add: count_ok_def)
  have a: "4 * size_field t \<le> 3 * capacity t" using inv(2) by (simp add: load_ok_def)
  have b: "\<forall>c t'. insert_course t c = Inr t' \<longrightarrow>
          (size_field t' = size_field t \<and> capacity t' = capacity t)
          \<or> (size_field t' = size_field t + 1
              \<and> capacity t' = (if 3 * capacity t < 4 * (size_field t + 1)
                               then 2 * capacity t else capacity t))"
    using insert_course_step[OF inv small] by blast
  have c: "\<forall>c. 2 * capacity t \<le> vector_max_size \<longrightarrow> (\<exists>t'. insert_course t c = Inr t')"
    using insert_course_returns[OF inv(1)] by blast
  have d: "\<forall>u u'. table_ok u \<and> resize u = Inr u' \<longrightarrow>
          capacity u' = 2 * capacity u \<and> mset (entries u') = mset (entries u)
          \<and> (\<forall>i < length (buckets u'). \<forall>e \<in> set (buckets u' ! i).
                hash u' (courseName e) = Inr i)"
    using resize_ok resize_entries unfolding placed_def by blast
  from a a' b c d show ?thesis by blast
qed

lemma insert_load_factor_example:
  "insert_all table18 thirteen_courses = Inr table13
   \<and> 4 * size_field table13 \<le> 3 * capacity table13
   \<and> insert_course table13 (Some (example_course name_cafe)) = Inr table14
   \<and> size_field table14 = size_field table13 + 1
   \<and> capacity table14 = 2 * capacity table13"
proof -
  have fresh: "table18 = new_table \<or> ((18::nat) < 2 ^ 64 \<and> new_table_cap 18 = Inr table18)"
    by (simp add: new_table_cap_18)
  have small: "capacity table13 < 2 ^ 52" by (simp add: table13_def)
  from insert_load_factor[OF fresh run13 small]
  have a: "4 * size_field table13 \<le> 3 * capacity table13"
    and b: "(size_field table14 = size_field table13 \<and> capacity table14 = capacity table13)
          \<or> (size_field table14 = size_field table13 + 1
              \<and> capacity table14 = (if 3 * capacity table13 < 4 * (size_field table13 + 1)
                               then 2 * capacity table13 else capacity table13))"
    using step14 by blast+
  have s: "size_field table13 = 13" "capacity table13 = 18" "size_field table14 = 14"
    by (simp_all add: table13_def table14_def)
  from b s have "size_field table14 = size_field table13 + 1 \<and> capacity table14 = 2 * capacity table13"
    by simp
  with a run13 step14 show ?thesis by simp
qed

text \<open>
  C2, as the code behaves. In \<^verbatim>\<open>ProjectTwoUniversal.cpp\<close> the buckets below the old capacity
  keep their heads through \<^verbatim>\<open>resize\<close>, so the rehash links the first node of an old chain in
  front of itself when its new index is its old one. \<^verbatim>\<open>DataStructure(16)\<close> takes the twelve
  courses \<^verbatim>\<open>CSCI100\<close> to \<^verbatim>\<open>CSCI111\<close> without a resize. The \<^verbatim>\<open>insert\<close> of \<^verbatim>\<open>CSCI116\<close> makes the size 13
  and doubles the capacity to 32, and it leaves the node of \<^verbatim>\<open>CSCI116\<close> pointing to itself. The
  \<^verbatim>\<open>insert\<close> of \<^verbatim>\<open>CSCI127\<close> that follows walks the chain of bucket 0 for a duplicate and does not
  return. All fourteen names are valid identifiers.
\<close>

theorem ptr_insert_never_returns:
  "ptr_new_table_cap 16 = Inr ptr_table16
   \<and> list_all (\<lambda>c. case c of None \<Rightarrow> False | Some x \<Rightarrow> courseNameValidator (courseName x))
       (twelve_courses @ [Some (example_course ''CSCI116''), Some (example_course ''CSCI127'')])
   \<and> ptr_insert_all ptr_table16 twelve_courses = Some (Inr ptr_table12)
   \<and> ptr_insert ptr_table12 (Some (example_course ''CSCI116'')) = Some (Inr ptr_table13)
   \<and> ptr_size ptr_table13 = 13 \<and> ptr_capacity ptr_table13 = 32
   \<and> node_at (ptr_heap ptr_table13) 12
       = Some \<lparr>nodeCourse = example_course ''CSCI116'', nodeNext = Some 12\<rparr>
   \<and> ptr_insert ptr_table13 (Some (example_course ''CSCI127'')) = None"
proof (intro conjI)
  show "ptr_new_table_cap 16 = Inr ptr_table16" by (rule ptr_new16)
  show "list_all (\<lambda>c. case c of None \<Rightarrow> False | Some x \<Rightarrow> courseNameValidator (courseName x))
       (twelve_courses @ [Some (example_course ''CSCI116''), Some (example_course ''CSCI127'')])"
    by (rule twelve_valid)
  show "ptr_insert_all ptr_table16 twelve_courses = Some (Inr ptr_table12)" by (rule ptr_run12)
  show "ptr_insert ptr_table12 (Some (example_course ''CSCI116'')) = Some (Inr ptr_table13)"
    by (rule ptr_step13)
  show "ptr_size ptr_table13 = 13" by (simp add: ptr_table13_def)
  show "ptr_capacity ptr_table13 = 32" by (simp add: ptr_table13_def)
  show "node_at (ptr_heap ptr_table13) 12
       = Some \<lparr>nodeCourse = example_course ''CSCI116'', nodeNext = Some 12\<rparr>"
    by (simp add: ptr_table13_def node_at_def)
  show "ptr_insert ptr_table13 (Some (example_course ''CSCI127'')) = None" by (rule ptr_insert127)
qed

text \<open>
  C1, as the code behaves. In the unique_ptr edition \<^verbatim>\<open>inject\<close> of two courses with different
  names and the same bucket leaves only the second in the table, and \<^verbatim>\<open>inject\<close> of the same
  course twice does not return. In \<^verbatim>\<open>ProjectTwoUniversal.cpp\<close> a second \<^verbatim>\<open>inject\<close> of the course
  the table already holds follows the pointer to its deleted node.
\<close>

theorem inject_loses_courses:
  "inject new_table [Some (example_course ''CSCI100''), Some (example_course ''CSCI221'')]
     = Some (Inr table_injected)
   \<and> entries table_injected = [example_course ''CSCI221'']
   \<and> get table_injected ''CSCI100'' = Inr None
   \<and> inject new_table [Some (example_course ''CSCI100''), Some (example_course ''CSCI100'')] = None
   \<and> inject_raw new_raw_table [Some (example_course ''CSCI100'')] = Inr raw_table_one
   \<and> inject_raw raw_table_one [Some (example_course ''CSCI100'')] = Inl UseAfterFree"
proof (intro conjI)
  show "inject new_table [Some (example_course ''CSCI100''), Some (example_course ''CSCI221'')]
     = Some (Inr table_injected)"
    by (simp add: table_injected_def eval1024)
  show "entries table_injected = [example_course ''CSCI221'']"
    by (simp add: table_injected_def eval1024)
  show "get table_injected ''CSCI100'' = Inr None"
    by (simp add: table_injected_def eval1024)
  show "inject new_table [Some (example_course ''CSCI100''), Some (example_course ''CSCI100'')] = None"
    by (simp add: eval1024)
  show "inject_raw new_raw_table [Some (example_course ''CSCI100'')] = Inr raw_table_one"
    by (simp add: eval_raw)
  show "inject_raw raw_table_one [Some (example_course ''CSCI100'')] = Inl UseAfterFree"
    by (simp add: eval_raw)
qed

text \<open>
  C3. In the unique_ptr edition, take a table reached through the constructors and the
  member functions with courses of valid identifiers, of a capacity up to \<open>2 ^ 59\<close>. \<^verbatim>\<open>insert\<close>
  of a course whose name a course of the table carries returns the table as it was, and
  \<^verbatim>\<open>get\<close> of the name returns the course that was there. \<^verbatim>\<open>insert\<close> of the null pointer returns
  the table as it was. In \<^verbatim>\<open>ProjectTwoUniversal.cpp\<close>, \<^verbatim>\<open>insert\<close> of a course whose name \<^verbatim>\<open>get\<close> finds
  in the table returns the table as it was, and so does \<^verbatim>\<open>insert\<close> of the null pointer.
\<close>

theorem insert_rejects_duplicate:
  assumes "reachable_valid t" and "capacity t \<le> 2 ^ 59"
    and "c' \<in> set (entries t)" and "courseName c = courseName c'"
    and "ptr_get u (courseName d) = Some (Inr (Some d'))"
  shows "insert_course t (Some c) = Inr t
    \<and> get t (courseName c) = Inr (Some c')
    \<and> insert_course t None = Inr t
    \<and> ptr_insert u (Some d) = Some (Inr u)
    \<and> ptr_insert u None = Some (Inr u)"
proof -
  from reachable_valid_inv[OF assms(1,2)] have "valid_table t" .
  from insert_present_valid[OF this assms(3,4)]
  have "insert_course t (Some c) = Inr t \<and> get t (courseName c) = Inr (Some c')" .
  moreover have "insert_course t None = Inr t" by (simp add: insert_course_def)
  moreover from assms(5) have "ptr_insert u (Some d) = Some (Inr u)" by (rule ptr_insert_present)
  moreover have "ptr_insert u None = Some (Inr u)" by (simp add: ptr_insert_def)
  ultimately show ?thesis by blast
qed

theorem insert_rejects_duplicate_witness:
  "reachable_valid table_one
   \<and> example_course ''CSCI100'' \<in> set (entries table_one)
   \<and> insert_course table_one (Some (same_name_course ''CSCI100'')) = Inr table_one
   \<and> get table_one ''CSCI100'' = Inr (Some (example_course ''CSCI100''))
   \<and> ptr_get ptr_table12 ''CSCI100'' = Some (Inr (Some (example_course ''CSCI100'')))
   \<and> ptr_insert ptr_table12 (Some (same_name_course ''CSCI100'')) = Some (Inr ptr_table12)"
proof -
  have c: "capacity table_one \<le> 2 ^ 59" by (simp add: table_one_def)
  have e: "example_course ''CSCI100'' \<in> set (entries table_one)"
    by (simp add: table_one_def eval1024)
  have n: "courseName (same_name_course ''CSCI100'') = courseName (example_course ''CSCI100'')"
    "courseName (same_name_course ''CSCI100'') = ''CSCI100''"
    by (simp_all add: same_name_course_def example_course_def)
  from insert_rejects_duplicate[OF reachable_valid_table_one c e n(1) ptr_get100]
  show ?thesis using reachable_valid_table_one e ptr_get100 by (simp add: n(2))
qed

text \<open>
  The identifier check is needed for this. Bytes from 128 on are sign-extended in \<^verbatim>\<open>hash\<close>, and
  then the hash under the doubled capacity need not fit the old one: in \<open>table14\<close>, which is
  reachable, two such names share a chain. \<^verbatim>\<open>insert\<close> of a course with the name of the second
  one finds the duplicate, and by then the course in front of it is gone from the table.
\<close>

lemma insert_duplicate_other_bytes:
  "reachable table14
   \<and> get table14 name_cafe = Inr (Some (example_course name_cafe))
   \<and> get table14 name_espan = Inr (Some (example_course name_espan))
   \<and> insert_course table14 (Some (example_course name_cafe)) = Inr table14_duplicate
   \<and> get table14_duplicate name_espan = Inr None
   \<and> table14_duplicate \<noteq> table14"
proof (intro conjI)
  show "reachable table14" by (rule reachable_table14)
  show "get table14 name_cafe = Inr (Some (example_course name_cafe))" by (rule get14)
  show "get table14 name_espan = Inr (Some (example_course name_espan))"
    by (simp add: table14_def eval_simps)
  show "insert_course table14 (Some (example_course name_cafe)) = Inr table14_duplicate"
    by (rule dup14)
  show "get table14_duplicate name_espan = Inr None"
    by (simp add: table14_duplicate_def eval_simps)
  show "table14_duplicate \<noteq> table14"
    by (simp add: table14_duplicate_def table14_def)
qed

text \<open>
  C4, as the code behaves. After \<^verbatim>\<open>insert\<close> and \<^verbatim>\<open>getSorted\<close> on the default table, \<^verbatim>\<open>remove\<close> of
  a name that is not in the table but shares the bucket empties the bucket and leaves the
  cache marked valid: the next \<^verbatim>\<open>getSorted\<close> returns the course that is no longer there.
\<close>

theorem getSorted_stale_after_remove:
  "insert_course new_table (Some (example_course ''CSCI100'')) = Inr table_one
   \<and> getSorted table_one = Inr (table_one_sorted, [example_course ''CSCI100''])
   \<and> remove_course table_one_sorted ''CSCI221'' = Inr table_one_stale
   \<and> getSorted table_one_stale = Inr (table_one_stale, [example_course ''CSCI100''])
   \<and> entries table_one_stale = []
   \<and> get table_one_stale ''CSCI100'' = Inr None"
proof (intro conjI)
  show "insert_course new_table (Some (example_course ''CSCI100'')) = Inr table_one"
    by (simp add: table_one_def eval1024)
  show "getSorted table_one = Inr (table_one_sorted, [example_course ''CSCI100''])"
    by (simp add: table_one_def table_one_sorted_def eval1024)
  show "remove_course table_one_sorted ''CSCI221'' = Inr table_one_stale"
    by (simp add: table_one_stale_def table_one_sorted_def eval1024)
  show "getSorted table_one_stale = Inr (table_one_stale, [example_course ''CSCI100''])"
    by (simp add: table_one_stale_def eval1024)
  show "entries table_one_stale = []"
    by (simp add: table_one_stale_def eval1024)
  show "get table_one_stale ''CSCI100'' = Inr None"
    by (simp add: table_one_stale_def eval1024)
qed

text \<open>
  C6, as the code behaves. In \<^verbatim>\<open>ProjectTwoUniversal.cpp\<close>, \<^verbatim>\<open>DataStructure(16)\<close> with the twelve
  courses \<^verbatim>\<open>CSCI100\<close> to \<^verbatim>\<open>CSCI111\<close> does not hold \<^verbatim>\<open>CSCI116\<close>. \<^verbatim>\<open>insert\<close> stores it and \<^verbatim>\<open>get\<close>
  finds it; the insert doubled the table and left the node pointing to itself. \<^verbatim>\<open>remove\<close>
  links the node before it to that same node and deletes it, so the \<^verbatim>\<open>get\<close> after the
  \<^verbatim>\<open>remove\<close> follows a pointer to a deleted node.
\<close>

theorem ptr_remove_leaves_dangling:
  "ptr_insert_all ptr_table16 twelve_courses = Some (Inr ptr_table12)
   \<and> courseNameValidator ''CSCI116''
   \<and> ptr_get ptr_table12 ''CSCI116'' = Some (Inr None)
   \<and> ptr_insert ptr_table12 (Some (example_course ''CSCI116'')) = Some (Inr ptr_table13)
   \<and> ptr_get ptr_table13 ''CSCI116'' = Some (Inr (Some (example_course ''CSCI116'')))
   \<and> ptr_remove ptr_table13 ''CSCI116'' = Some (Inr ptr_table13_removed)
   \<and> node_at (ptr_heap ptr_table13_removed) 5
       = Some \<lparr>nodeCourse = example_course ''CSCI105'', nodeNext = Some 12\<rparr>
   \<and> node_at (ptr_heap ptr_table13_removed) 12 = None
   \<and> ptr_get ptr_table13_removed ''CSCI116'' = Some (Inl UseAfterFree)"
proof (intro conjI)
  show "ptr_insert_all ptr_table16 twelve_courses = Some (Inr ptr_table12)" by (rule ptr_run12)
  show "courseNameValidator ''CSCI116''" by code_simp
  show "ptr_get ptr_table12 ''CSCI116'' = Some (Inr None)" by (rule ptr_get12)
  show "ptr_insert ptr_table12 (Some (example_course ''CSCI116'')) = Some (Inr ptr_table13)"
    by (rule ptr_step13)
  show "ptr_get ptr_table13 ''CSCI116'' = Some (Inr (Some (example_course ''CSCI116'')))"
    by (rule ptr_get13)
  show "ptr_remove ptr_table13 ''CSCI116'' = Some (Inr ptr_table13_removed)" by (rule ptr_rm13)
  show "node_at (ptr_heap ptr_table13_removed) 5
       = Some \<lparr>nodeCourse = example_course ''CSCI105'', nodeNext = Some 12\<rparr>"
    by (simp add: ptr_table13_removed_def node_at_def)
  show "node_at (ptr_heap ptr_table13_removed) 12 = None"
    by (simp add: ptr_table13_removed_def node_at_def)
  show "ptr_get ptr_table13_removed ''CSCI116'' = Some (Inl UseAfterFree)" by (rule ptr_get13r)
qed

text \<open>
  In the unique_ptr edition a name is gone after its \<^verbatim>\<open>remove\<close> on every table that holds
  valid identifiers (\<open>remove_then_get_valid\<close>). With bytes from 128 on it is not: \<open>table13\<close> is
  reachable and does not hold the course. \<^verbatim>\<open>insert\<close> stores it and \<^verbatim>\<open>get\<close> finds it; the insert
  doubled the table, and the course is now second in its chain. \<^verbatim>\<open>remove\<close> of its name
  destroys the course in front of it and leaves it in the table, so \<^verbatim>\<open>get\<close> still finds it.
\<close>

lemma remove_other_bytes:
  "reachable table13
   \<and> get table13 name_cafe = Inr None
   \<and> insert_course table13 (Some (example_course name_cafe)) = Inr table14
   \<and> get table14 name_cafe = Inr (Some (example_course name_cafe))
   \<and> remove_course table14 name_cafe = Inr table14_removed
   \<and> get table14_removed name_cafe = Inr (Some (example_course name_cafe))"
  using reachable_table13 get13 step14 get14 rm14 get14rm by simp

text \<open>
  C9, as stated, fails: \<^verbatim>\<open>inject\<close> of \<^verbatim>\<open>ProjectTwoUniversal.cpp\<close> with 600 courses leaves the
  capacity at 1024, and \<open>max 1024 (2 * 600)\<close> is 1200.
\<close>

theorem inject_capacity_counterexample:
  "map_sum id raw_capacity
     (inject_raw new_raw_table (replicate 600 (Some (example_course ''CSCI100'')))) = Inr 1024
   \<and> (1024 :: nat) \<noteq> max 1024 (2 * 600)"
  by (simp add: raw600 raw_table_one_def)

text \<open>
  C9, amended. For every non-empty sequence of courses, \<^verbatim>\<open>inject\<close> of
  \<^verbatim>\<open>ProjectTwoUniversal.cpp\<close>, when it returns, leaves the capacity at twice the number of
  courses if there are more than 1024 of them, and at 1024 otherwise. On the table the
  default constructor made it returns for every sequence whose doubled length a vector can
  have.
\<close>

theorem inject_capacity:
  "(newCourses \<noteq> [] \<and> length newCourses \<le> vector_max_size \<and> inject_raw t newCourses = Inr t'
      \<longrightarrow> raw_capacity t' = (if 1024 < length newCourses then 2 * length newCourses else 1024))
   \<and> (2 * length newCourses \<le> vector_max_size
      \<longrightarrow> (\<exists>t'. inject_raw new_raw_table newCourses = Inr t'))"
proof (intro conjI impI)
  assume a: "newCourses \<noteq> [] \<and> length newCourses \<le> vector_max_size \<and> inject_raw t newCourses = Inr t'"
  then obtain t1 where t1: "inject_reset t (length newCourses) = Inr t1" "inject_raw_loop t1 newCourses = Inr t'"
    by (auto simp: inject_raw_def split: sum.splits)
  from a have "length newCourses * 2 < 2 ^ 64" by (simp add: vector_max_size_def)
  with inject_reset_capacity[OF t1(1)] inject_raw_loop_capacity[OF t1(2)]
  show "raw_capacity t' = (if 1024 < length newCourses then 2 * length newCourses else 1024)"
    by (simp add: mult.commute)
next
  assume "2 * length newCourses \<le> vector_max_size"
  then show "\<exists>t'. inject_raw new_raw_table newCourses = Inr t'" by (rule inject_raw_fresh_returns)
qed

theorem inject_capacity_witness:
  "map_sum id raw_capacity (inject_raw new_raw_table (replicate 2000 (Some (example_course ''CSCI100'')))) = Inr 4000
   \<and> map_sum id raw_capacity (inject_raw new_raw_table [Some (example_course ''CSCI100'')]) = Inr 1024"
proof -
  let ?cs = "replicate 2000 (Some (example_course ''CSCI100''))"
  have "2 * length ?cs \<le> vector_max_size" by (simp add: vector_max_size_def)
  with inject_capacity[of ?cs] obtain t' where t': "inject_raw new_raw_table ?cs = Inr t'" by blast
  have "?cs \<noteq> [] \<and> length ?cs \<le> vector_max_size" by (simp add: vector_max_size_def)
  with inject_capacity[of ?cs new_raw_table t'] t' have "raw_capacity t' = 4000" by simp
  with t' have a: "map_sum id raw_capacity (inject_raw new_raw_table ?cs) = Inr 4000" by simp
  let ?one = "[Some (example_course ''CSCI100'')]"
  have "2 * length ?one \<le> vector_max_size" by (simp add: vector_max_size_def)
  with inject_capacity[of ?one] obtain u' where u': "inject_raw new_raw_table ?one = Inr u'" by blast
  have "?one \<noteq> [] \<and> length ?one \<le> vector_max_size" by (simp add: vector_max_size_def)
  with inject_capacity[of ?one new_raw_table u'] u' have "raw_capacity u' = 1024" by simp
  with u' have b: "map_sum id raw_capacity (inject_raw new_raw_table ?one) = Inr 1024" by simp
  from a b show ?thesis by (rule conjI)
qed

text \<open>The unique_ptr edition's \<^verbatim>\<open>inject\<close> keeps the capacity the table had.\<close>

lemma inject_keeps_capacity:
  "table_ok u \<Longrightarrow> inject u newCourses = Some (Inr u') \<Longrightarrow> capacity u' = capacity u"
  using inject_ok by blast

end
